theory Spec2Isabelle
  imports Complex_Main
begin

section \<open>IEEE-754 binary64 values, the entries of a matrix\<close>

text \<open>
  The entries of a \<open>Matrix\<close> are Go \<open>float64\<close> values. A finite value is kept as its
  sign, magnitude and binary exponent: \<open>Finite s m e\<close> stands for \<open>(-1)^s * m * 2^e\<close>.
  The results of the arithmetic are always in canonical form: the zeros are
  \<open>Finite s 0 0\<close>; otherwise \<open>0 < m < 2^53\<close>, \<open>-1074 \<le> e \<le> 971\<close>, and \<open>2^52 \<le> m\<close>
  unless \<open>e = -1074\<close> (the subnormals).
  NaN payloads are not observable by the program and are not modelled.
  Every operation rounds on its own, to nearest with ties to even, as the amd64
  code of the Go compiler does.
\<close>

datatype float64 = Finite bool int int | Infinity bool | NaN

function bit_len :: "int \<Rightarrow> int" where
  "bit_len n = (if n \<le> 0 then 0 else 1 + bit_len (n div 2))"
  by pat_completeness auto
termination
  by (relation "measure nat") auto

declare bit_len.simps [simp del]

function pow2 :: "int \<Rightarrow> int" where
  \<comment> \<open>\<open>2 ^ k\<close> for \<open>k \<ge> 0\<close>, by repeated squaring\<close>
  "pow2 k =
     (if k \<le> 0 then 1
      else let h = pow2 (k div 2) in if even k then h * h else 2 * (h * h))"
  by pat_completeness auto
termination
  by (relation "measure nat") auto

declare pow2.simps [simp del]

definition round_f64 :: "bool \<Rightarrow> int \<Rightarrow> int \<Rightarrow> float64" where
  \<comment> \<open>the float64 nearest to \<open>(-1)^s * m * 2^e\<close> for \<open>m \<ge> 0\<close>, ties to even\<close>
  "round_f64 s m e =
     (if m \<le> 0 then Finite s 0 0
      else
        let e' = max (e + bit_len m - 53) (- 1074) in
        if e' \<le> e then
          (if 971 < e' then Infinity s else Finite s (m * pow2 (e - e')) e')
        else
          let d = pow2 (e' - e);
              q = m div d;
              r = m mod d;
              q' = (if d < 2 * r \<or> (2 * r = d \<and> odd q) then q + 1 else q);
              m'' = (if q' = pow2 53 then pow2 52 else q');
              e'' = (if q' = pow2 53 then e' + 1 else e')
          in if 971 < e'' then Infinity s
             else if m'' = 0 then Finite s 0 0
             else Finite s m'' e'')"

definition signed :: "bool \<Rightarrow> int \<Rightarrow> int" where
  "signed s m = (if s then - m else m)"

fun fadd :: "float64 \<Rightarrow> float64 \<Rightarrow> float64" where
  "fadd NaN _ = NaN"
| "fadd _ NaN = NaN"
| "fadd (Infinity s) (Infinity t) = (if s = t then Infinity s else NaN)"
| "fadd (Infinity s) (Finite _ _ _) = Infinity s"
| "fadd (Finite _ _ _) (Infinity t) = Infinity t"
| "fadd (Finite s m e) (Finite t n f) =
     (let g = min e f;
          i = signed s (m * pow2 (e - g)) + signed t (n * pow2 (f - g))
      in if i = 0 then Finite (s \<and> t) 0 0
         else round_f64 (i < 0) \<bar>i\<bar> g)"

fun fneg :: "float64 \<Rightarrow> float64" where
  "fneg NaN = NaN"
| "fneg (Infinity s) = Infinity (\<not> s)"
| "fneg (Finite s m e) = Finite (\<not> s) m e"

fun fmul :: "float64 \<Rightarrow> float64 \<Rightarrow> float64" where
  "fmul NaN _ = NaN"
| "fmul _ NaN = NaN"
| "fmul (Infinity s) (Infinity t) = Infinity (s \<noteq> t)"
| "fmul (Infinity s) (Finite t n f) = (if n = 0 then NaN else Infinity (s \<noteq> t))"
| "fmul (Finite s m e) (Infinity t) = (if m = 0 then NaN else Infinity (s \<noteq> t))"
| "fmul (Finite s m e) (Finite t n f) = round_f64 (s \<noteq> t) (m * n) (e + f)"

fun fdiv :: "float64 \<Rightarrow> float64 \<Rightarrow> float64" where
  "fdiv NaN _ = NaN"
| "fdiv _ NaN = NaN"
| "fdiv (Infinity s) (Infinity t) = NaN"
| "fdiv (Infinity s) (Finite t n f) = Infinity (s \<noteq> t)"
| "fdiv (Finite s m e) (Infinity t) = Finite (s \<noteq> t) 0 0"
| "fdiv (Finite s m e) (Finite t n f) =
     (if n = 0 then (if m = 0 then NaN else Infinity (s \<noteq> t))
      else
        let k = bit_len n + 56;
            q = (m * pow2 k) div n;
            r = (m * pow2 k) mod n
        in round_f64 (s \<noteq> t) (2 * q + (if r = 0 then 0 else 1)) (e - f - k - 1))"

fun fle :: "float64 \<Rightarrow> float64 \<Rightarrow> bool" where
  "fle NaN _ = False"
| "fle _ NaN = False"
| "fle (Infinity s) (Infinity t) = (s \<or> \<not> t)"
| "fle (Infinity s) (Finite _ _ _) = s"
| "fle (Finite _ _ _) (Infinity t) = (\<not> t)"
| "fle (Finite s m e) (Finite t n f) =
     (let g = min e f
      in signed s (m * pow2 (e - g)) \<le> signed t (n * pow2 (f - g)))"

fun flt :: "float64 \<Rightarrow> float64 \<Rightarrow> bool" where
  "flt NaN _ = False"
| "flt _ NaN = False"
| "flt (Infinity s) (Infinity t) = (s \<and> \<not> t)"
| "flt (Infinity s) (Finite _ _ _) = s"
| "flt (Finite _ _ _) (Infinity t) = (\<not> t)"
| "flt (Finite s m e) (Finite t n f) =
     (let g = min e f
      in signed s (m * pow2 (e - g)) < signed t (n * pow2 (f - g)))"

definition f64_of_int :: "int \<Rightarrow> float64" where
  \<comment> \<open>an integer literal of the source or of a test, as a float64\<close>
  "f64_of_int i = round_f64 (i < 0) \<bar>i\<bar> 0"

text \<open>
  The operators of the source (\<open>+ - * /\<close>, \<open>< <=\<close> and the literals \<open>0\<close>, \<open>1\<close>) are
  those of the type classes, so that the operations on matrices below are written as
  in the source and can be read over \<open>float64\<close> and, for the exact arithmetic that
  the decomposition is designed for, over \<open>real\<close>.
\<close>

instantiation float64 :: "{zero, one, plus, minus, uminus, times, inverse, ord}"
begin

definition zero_float64 :: float64 where
  "zero_float64 = Finite False 0 0"

definition one_float64 :: float64 where
  "one_float64 = Finite False 4503599627370496 (- 52)"

definition plus_float64 :: "float64 \<Rightarrow> float64 \<Rightarrow> float64" where
  "plus_float64 a b = fadd a b"

definition uminus_float64 :: "float64 \<Rightarrow> float64" where
  "uminus_float64 a = fneg a"

definition minus_float64 :: "float64 \<Rightarrow> float64 \<Rightarrow> float64" where
  "minus_float64 a b = fadd a (fneg b)"

definition times_float64 :: "float64 \<Rightarrow> float64 \<Rightarrow> float64" where
  "times_float64 a b = fmul a b"

definition divide_float64 :: "float64 \<Rightarrow> float64 \<Rightarrow> float64" where
  "divide_float64 a b = fdiv a b"

definition inverse_float64 :: "float64 \<Rightarrow> float64" where
  "inverse_float64 a = fdiv (Finite False 4503599627370496 (- 52)) a"

definition less_eq_float64 :: "float64 \<Rightarrow> float64 \<Rightarrow> bool" where
  "less_eq_float64 a b = fle a b"

definition less_float64 :: "float64 \<Rightarrow> float64 \<Rightarrow> bool" where
  "less_float64 a b = flt a b"

instance ..

end

definition go_eq :: "'a::ord \<Rightarrow> 'a \<Rightarrow> bool" where
  \<comment> \<open>Go's \<open>==\<close> on float64: false on a NaN, true on zeros of either sign. It is
      \<open>a <= b && b <= a\<close> in IEEE-754 arithmetic, and equality on the reals.\<close>
  "go_eq a b = (a \<le> b \<and> b \<le> a)"


section \<open>Errors, panics and checked indexing\<close>

text \<open>
  An operation of the package returns its result together with an \<open>error\<close> built by
  \<open>errors.New\<close> from a message; \<open>Err msg\<close> is that value. An index out of range is not
  an error value but a run-time panic of Go, which unwinds the call: \<open>Panic\<close>. Both are
  the \<open>Inl\<close> branch of the result of a model function.
\<close>

datatype error = Err string | Panic

definition bind :: "error + 'a \<Rightarrow> ('a \<Rightarrow> error + 'b) \<Rightarrow> error + 'b" where
  "bind r f = (case r of Inl e \<Rightarrow> Inl e | Inr x \<Rightarrow> f x)"

definition index :: "'a list \<Rightarrow> nat \<Rightarrow> error + 'a" where
  \<comment> \<open>\<open>xs[i]\<close> read, for an index that is not negative\<close>
  "index xs i = (if i < length xs then Inr (xs ! i) else Inl Panic)"

definition put :: "'a list \<Rightarrow> nat \<Rightarrow> 'a \<Rightarrow> error + 'a list" where
  \<comment> \<open>\<open>xs[i] = v\<close>\<close>
  "put xs i v = (if i < length xs then Inr (xs[i := v]) else Inl Panic)"

definition at2 :: "'a list list \<Rightarrow> nat \<Rightarrow> nat \<Rightarrow> error + 'a" where
  \<comment> \<open>\<open>d[i][j]\<close> read\<close>
  "at2 d i j = bind (index d i) (\<lambda>row. index row j)"

definition put2 :: "'a list list \<Rightarrow> nat \<Rightarrow> nat \<Rightarrow> 'a \<Rightarrow> error + 'a list list" where
  \<comment> \<open>\<open>d[i][j] = v\<close>; the rows of the grids written by the package are never shared\<close>
  "put2 d i j v = bind (index d i) (\<lambda>row. bind (put row j v) (\<lambda>row'. put d i row'))"

definition index_int :: "'a list \<Rightarrow> int \<Rightarrow> error + 'a" where
  \<comment> \<open>\<open>xs[i]\<close> read, for an index computed from an argument of type \<open>int\<close>\<close>
  "index_int xs i = (if 0 \<le> i \<and> i < int (length xs) then Inr (xs ! nat i) else Inl Panic)"

fun for_each :: "nat list \<Rightarrow> (nat \<Rightarrow> 's \<Rightarrow> error + 's) \<Rightarrow> 's \<Rightarrow> error + 's" where
  \<comment> \<open>a \<open>for\<close> loop over the given indices, threading the variables it assigns\<close>
  "for_each [] body s = Inr s"
| "for_each (i # is) body s = bind (body i s) (for_each is body)"

fun collect :: "nat list \<Rightarrow> (nat \<Rightarrow> error + 'b) \<Rightarrow> error + 'b list" where
  \<comment> \<open>a loop that fills the slots of a fresh slice in order, each slot once\<close>
  "collect [] cell = Inr []"
| "collect (i # is) cell =
     bind (cell i) (\<lambda>x. bind (collect is cell) (\<lambda>xs. Inr (x # xs)))"

definition grid :: "nat \<Rightarrow> nat \<Rightarrow> (nat \<Rightarrow> nat \<Rightarrow> error + 'a) \<Rightarrow> error + 'a list list" where
  \<comment> \<open>\<open>result := make([][]T, r); for i := range result \{ result[i] = make([]T, c);
      for j := range result[i] \{ result[i][j] = cell i j \} \}\<close>\<close>
  "grid r c cell = collect [0..<r] (\<lambda>i. collect [0..<c] (cell i))"

section \<open>The Matrix type and its constructors\<close>

text \<open>
  The fields \<open>lines\<close> and \<open>columns\<close> are Go \<open>int\<close>s that only ever hold a \<open>len\<close> or the
  size a constructor was given and \<open>make\<close> accepted, hence natural numbers. \<open>data\<close> is
  the slice of row slices.
\<close>

record 'a Matrix =
  lines :: nat
  columns :: nat
  data :: "'a list list"

definition empty_matrix :: "'a Matrix" where
  "empty_matrix = \<lparr>lines = 0, columns = 0, data = []\<rparr>"

definition NullMatrix :: "int \<Rightarrow> error + ('a::zero) Matrix" where
  \<comment> \<open>\<open>make\<close> panics on a negative size \<open>sz\<close>\<close>
  "NullMatrix sz =
     (if sz < 0 then Inl Panic
      else Inr \<lparr>lines = nat sz, columns = nat sz,
                data = map (\<lambda>i. replicate (nat sz) 0) [0..<nat sz]\<rparr>)"

definition NewIdentityMatrix :: "int \<Rightarrow> error + ('a::{zero,one}) Matrix" where
  "NewIdentityMatrix sz =
     (if sz < 0 then Inl Panic
      else Inr \<lparr>lines = nat sz, columns = nat sz,
                data = map (\<lambda>i. (replicate (nat sz) 0)[i := 1]) [0..<nat sz]\<rparr>)"

definition NewMatrix :: "'a list list \<Rightarrow> 'a Matrix" where
  "NewMatrix d =
     (if length d = 0 then empty_matrix
      else if length (hd d) = 0 then empty_matrix
      else \<lparr>lines = length d, columns = length (hd d), data = d\<rparr>)"

definition Lines :: "'a Matrix \<Rightarrow> nat" where
  "Lines m = lines m"

definition Columns :: "'a Matrix \<Rightarrow> nat" where
  "Columns m = columns m"

definition rectangular :: "'a Matrix \<Rightarrow> bool" where
  \<comment> \<open>the invariant of the data model: \<open>lines\<close> rows of \<open>columns\<close> entries each, and no
      dimension is 0 unless both are\<close>
  "rectangular m =
     (length (data m) = lines m \<and> list_all (\<lambda>row. length row = columns m) (data m)
      \<and> ((lines m = 0) = (columns m = 0)))"

section \<open>Element access and elementwise arithmetic\<close>

definition Position :: "'a Matrix \<Rightarrow> int \<Rightarrow> int \<Rightarrow> error + 'a" where
  \<comment> \<open>\<open>row - 1\<close> and \<open>col - 1\<close> wrap only at the least \<open>int\<close>, to an index that is out
      of range as the negative one is\<close>
  "Position m row col =
     (if int (lines m) < row then Inl (Err ''row number is higher than the matrix's lines'')
      else if int (columns m) < col
        then Inl (Err ''column number is higher than the matrix's columns'')
      else if row = 0 then Inl (Err ''invalid row'')
      else if col = 0 then Inl (Err ''invalid column'')
      else bind (index_int (data m) (row - 1)) (\<lambda>r. index_int r (col - 1)))"

definition IndexOutOfRange :: "error \<Rightarrow> bool" where
  \<comment> \<open>the error kind of the four messages of \<open>Position\<close>\<close>
  "IndexOutOfRange e =
     (e = Err ''row number is higher than the matrix's lines''
      \<or> e = Err ''column number is higher than the matrix's columns''
      \<or> e = Err ''invalid row'' \<or> e = Err ''invalid column'')"

definition Sum :: "('a::plus) Matrix \<Rightarrow> 'a Matrix \<Rightarrow> error + 'a Matrix" where
  "Sum m B =
     (if lines m \<noteq> lines B \<or> columns m \<noteq> columns B
        then Inl (Err ''Matrix size is not the same'')
      else bind (grid (lines m) (columns m)
                   (\<lambda>i j. bind (at2 (data m) i j) (\<lambda>a. bind (at2 (data B) i j) (\<lambda>b.
                      Inr (a + b)))))
             (\<lambda>result. Inr (NewMatrix result)))"

definition Sub :: "('a::minus) Matrix \<Rightarrow> 'a Matrix \<Rightarrow> error + 'a Matrix" where
  "Sub m B =
     (if lines m \<noteq> lines B \<or> columns m \<noteq> columns B
        then Inl (Err ''Matrix size is not the same'')
      else bind (grid (lines m) (columns m)
                   (\<lambda>i j. bind (at2 (data m) i j) (\<lambda>a. bind (at2 (data B) i j) (\<lambda>b.
                      Inr (a - b)))))
             (\<lambda>result. Inr (NewMatrix result)))"

definition ScalarProduct :: "('a::times) Matrix \<Rightarrow> 'a \<Rightarrow> error + 'a Matrix" where
  \<comment> \<open>returns no error value; \<open>Inl\<close> is a panic\<close>
  "ScalarProduct m scalar =
     bind (grid (lines m) (columns m)
             (\<lambda>i j. bind (at2 (data m) i j) (\<lambda>a. Inr (a * scalar))))
       (\<lambda>result. Inr (NewMatrix result))"

definition Transpose :: "'a Matrix \<Rightarrow> error + 'a Matrix" where
  \<comment> \<open>returns no error value; \<open>Inl\<close> is a panic\<close>
  "Transpose m =
     bind (grid (columns m) (lines m) (\<lambda>i j. at2 (data m) j i))
       (\<lambda>result. Inr (NewMatrix result))"

definition Product :: "('a::{zero,plus,times}) Matrix \<Rightarrow> 'a Matrix \<Rightarrow> error + 'a Matrix" where
  "Product m B =
     (if columns m \<noteq> Lines B
        then Inl (Err ''matrix B number of lines id different of matrix A number of columns'')
      else bind (grid (lines m) (columns B)
                   (\<lambda>i j. for_each [0..<Columns m]
                      (\<lambda>k acc. bind (at2 (data m) i k) (\<lambda>a. bind (at2 (data B) k j) (\<lambda>b.
                         Inr (acc + a * b)))) 0))
             (\<lambda>result. Inr (NewMatrix result)))"

fun equal_cells :: "(nat \<times> nat) list \<Rightarrow> ('a::ord) list list \<Rightarrow> 'a list list \<Rightarrow> error + bool" where
  \<comment> \<open>the two nested loops of \<open>Equals\<close> over the cells in row-major order, leaving at
      the first pair of entries with \<open>!=\<close>\<close>
  "equal_cells [] a b = Inr True"
| "equal_cells ((i, j) # ps) a b =
     bind (at2 a i j) (\<lambda>x. bind (at2 b i j) (\<lambda>y.
       if \<not> go_eq x y then Inr False else equal_cells ps a b))"

definition Equals :: "('a::ord) Matrix \<Rightarrow> 'a Matrix \<Rightarrow> error + bool" where
  \<comment> \<open>returns no error value; \<open>Inl\<close> is a panic\<close>
  "Equals m B =
     (if lines m \<noteq> lines B \<or> columns m \<noteq> columns B then Inr False
      else equal_cells (List.product [0..<lines m] [0..<columns m]) (data m) (data B))"

section \<open>LU decomposition, determinant and inverse\<close>

definition zeros :: "nat \<Rightarrow> nat \<Rightarrow> ('a::zero) list list" where
  \<comment> \<open>\<open>r\<close> fresh rows, each \<open>make([]float64, c)\<close>\<close>
  "zeros r c = replicate r (replicate c 0)"

definition dot :: "('a::{zero,plus,times}) list list \<Rightarrow> 'a list list \<Rightarrow> nat \<Rightarrow> nat \<Rightarrow> nat
    \<Rightarrow> error + 'a" where
  \<comment> \<open>\<open>sum := 0.; for j := 0; j < n; j++ \{ sum += l[r][j] * u[j][c] \}\<close>\<close>
  "dot l u r c n =
     for_each [0..<n]
       (\<lambda>j sum. bind (at2 l r j) (\<lambda>a. bind (at2 u j c) (\<lambda>b. Inr (sum + a * b)))) 0"

definition LU_upper :: "('a::{zero,plus,minus,times}) Matrix \<Rightarrow> nat \<Rightarrow> nat
    \<Rightarrow> 'a list list \<times> 'a list list \<Rightarrow> error + 'a list list \<times> 'a list list" where
  \<comment> \<open>the body of the loop "upper triangular" at row \<open>i\<close> and column \<open>k\<close>\<close>
  "LU_upper m i k s =
     (case s of (l_data, u_data) \<Rightarrow>
        bind (dot l_data u_data i k i) (\<lambda>sum.
        bind (at2 (data m) i k) (\<lambda>a.
        bind (put2 u_data i k (a - sum)) (\<lambda>u_data'. Inr (l_data, u_data')))))"

definition LU_lower :: "('a::{zero,one,plus,minus,times,inverse,ord}) Matrix \<Rightarrow> nat \<Rightarrow> nat
    \<Rightarrow> 'a list list \<times> 'a list list \<Rightarrow> error + 'a list list \<times> 'a list list" where
  \<comment> \<open>the body of the loop "Lower Triangular" at column \<open>i\<close> and row \<open>k\<close>\<close>
  "LU_lower m i k s =
     (case s of (l_data, u_data) \<Rightarrow>
        if i = k then bind (put2 l_data i i 1) (\<lambda>l_data'. Inr (l_data', u_data))
        else
          bind (dot l_data u_data k i i) (\<lambda>sum.
          bind (at2 u_data i i) (\<lambda>pivot.
            if go_eq pivot 0 then bind (put2 l_data k i 0) (\<lambda>l_data'. Inr (l_data', u_data))
            else
              bind (at2 (data m) k i) (\<lambda>a.
              bind (put2 l_data k i ((a - sum) / pivot)) (\<lambda>l_data'. Inr (l_data', u_data))))))"

definition LU_loops :: "('a::{zero,one,plus,minus,times,inverse,ord}) Matrix
    \<Rightarrow> error + 'a list list \<times> 'a list list" where
  "LU_loops m =
     for_each [0..<lines m]
       (\<lambda>i s. bind (for_each [0..<lines m] (LU_upper m i) s)
                 (for_each [0..<lines m] (LU_lower m i)))
       (zeros (lines m) (lines m), zeros (lines m) (lines m))"

definition LU :: "('a::{zero,one,plus,minus,times,inverse,ord}) Matrix
    \<Rightarrow> error + 'a Matrix \<times> 'a Matrix" where
  "LU m =
     (if lines m \<noteq> columns m
        then Inl (Err ''matrix can't be decomposed, number of lines and columns are different'')
      else bind (LU_loops m)
             (\<lambda>s. case s of (l_data, u_data) \<Rightarrow> Inr (NewMatrix l_data, NewMatrix u_data)))"

definition Determinant :: "('a::{zero,one,plus,minus,times,inverse,ord}) Matrix \<Rightarrow> error + 'a" where
  \<comment> \<open>the error of \<open>LU\<close> is dropped; had it returned one, \<open>U\<close> would be nil and
      \<open>U.lines\<close> would panic\<close>
  "Determinant m =
     (if lines m = 0 \<or> columns m = 0 then Inl (Err ''empty matrix'')
      else if lines m \<noteq> columns m then Inl (Err ''matrix must be square'')
      else if lines m = 1 then at2 (data m) 0 0
      else if lines m = 2 then
        bind (at2 (data m) 0 0) (\<lambda>a. bind (at2 (data m) 1 1) (\<lambda>d.
        bind (at2 (data m) 0 1) (\<lambda>b. bind (at2 (data m) 1 0) (\<lambda>c.
          Inr (a * d - b * c)))))
      else
        (case LU m of
           Inl e \<Rightarrow> Inl Panic
         | Inr (L, U) \<Rightarrow>
             for_each [0..<lines U]
               (\<lambda>i diag. bind (at2 (data U) i i) (\<lambda>x. Inr (diag * x))) 1))"

definition augment :: "('a::{zero,one}) Matrix \<Rightarrow> nat \<Rightarrow> error + 'a list list" where
  \<comment> \<open>the scratch grid \<open>augmented\<close>: the entries of \<open>m\<close> copied into fresh rows of
      \<open>order * 2\<close> entries, then 1 written at column \<open>i + order\<close> of row \<open>i\<close>\<close>
  "augment m order =
     bind (collect [0..<order]
             (\<lambda>i. for_each [0..<order]
                     (\<lambda>j row. bind (at2 (data m) i j) (\<lambda>x. put row j x))
                     (replicate (order * 2) 0)))
       (for_each [0..<order]
          (\<lambda>i. for_each [0..<order * 2]
                  (\<lambda>j augmented. if j = i + order then put2 augmented i j 1
                                  else Inr augmented)))"

definition interchange :: "nat \<Rightarrow> ('a::ord) list list \<Rightarrow> error + 'a list list" where
  \<comment> \<open>\<open>for i := order - 1; i > 0; i--\<close>: rows \<open>i - 1\<close> and \<open>i\<close> change places when
      \<open>augmented[i-1][0] < augmented[i][0]\<close>\<close>
  "interchange order =
     for_each (rev [1..<order])
       (\<lambda>i augmented.
          bind (at2 augmented (i - 1) 0) (\<lambda>a. bind (at2 augmented i 0) (\<lambda>b.
            if a < b then
              bind (index augmented i) (\<lambda>tempSlice.
              bind (index augmented (i - 1)) (\<lambda>above.
              bind (put augmented i above) (\<lambda>augmented'.
                put augmented' (i - 1) tempSlice)))
            else Inr augmented)))"

definition eliminate :: "nat \<Rightarrow> ('a::{minus,times,inverse}) list list \<Rightarrow> error + 'a list list" where
  \<comment> \<open>the loop "Replace a row by sum of itself and a"\<close>
  "eliminate order =
     for_each [0..<order]
       (\<lambda>i. for_each [0..<order]
          (\<lambda>j augmented.
             if j \<noteq> i then
               bind (at2 augmented j i) (\<lambda>a. bind (at2 augmented i i) (\<lambda>pivot.
                 let temp = a / pivot in
                 for_each [0..<order * 2]
                   (\<lambda>k augmented. bind (at2 augmented j k) (\<lambda>x.
                      bind (at2 augmented i k) (\<lambda>y. put2 augmented j k (x - y * temp))))
                   augmented))
             else Inr augmented))"

definition normalise :: "nat \<Rightarrow> ('a::inverse) list list \<Rightarrow> error + 'a list list" where
  \<comment> \<open>the last loop over \<open>augmented\<close>: row \<open>i\<close> divided by its diagonal entry\<close>
  "normalise order =
     for_each [0..<order]
       (\<lambda>i augmented. bind (at2 augmented i i) (\<lambda>temp.
          for_each [0..<order * 2]
            (\<lambda>j augmented. bind (at2 augmented i j) (\<lambda>x. put2 augmented i j (x / temp)))
            augmented))"

definition Inverse :: "('a::{zero,one,plus,minus,times,inverse,ord}) Matrix \<Rightarrow> error + 'a Matrix" where
  "Inverse m =
     (if lines m \<noteq> columns m then Inl (Err ''matrix musts be square'')
      else
        bind (Determinant m) (\<lambda>det.
          if go_eq det 0 then Inl (Err ''determinant is zero. Matrix cannot be inverted'')
          else
            let order = lines m in
            bind (augment m order) (\<lambda>augmented.
            bind (interchange order augmented) (\<lambda>augmented.
            bind (eliminate order augmented) (\<lambda>augmented.
            bind (normalise order augmented) (\<lambda>augmented.
            bind (grid order order (\<lambda>i j. at2 augmented i (order + j))) (\<lambda>result_data.
              Inr (NewMatrix result_data))))))))"

section \<open>The operations on the heap\<close>

text \<open>
  The operations above take and return grids as values. To say what an operation does to
  the storage of its receiver and arguments, they are written a second time over a heap:
  a cell is the array behind a row slice (\<open>[]float64\<close>) or behind a slice of row slices
  (\<open>[][]float64\<close>, whose elements are references to rows, or nil), an address is the
  index of a cell, and \<open>make\<close> adds a cell. Each definition follows the same lines of the
  source as its counterpart above, with every read and every assignment of an element
  made on the heap. A slice is taken to cover its whole array, as every slice that the
  package makes does. The struct \<open>Matrix\<close> is kept a value: the source assigns the fields
  of a Matrix in its constructors only.
\<close>

type_synonym addr = nat

datatype cell = Row "float64 list" | Rows "addr option list"

type_synonym heap = "cell list"







definition load_rows :: "heap \<Rightarrow> addr \<Rightarrow> error + addr option list" where
  "load_rows h d =
     (if d < length h then (case h ! d of Rows rs \<Rightarrow> Inr rs | Row xs \<Rightarrow> Inl Panic)
      else Inl Panic)"



























section \<open>Notions used to state the properties\<close>

definition tabulate :: "nat \<Rightarrow> nat \<Rightarrow> (nat \<Rightarrow> nat \<Rightarrow> 'a) \<Rightarrow> 'a list list" where
  \<comment> \<open>the grid of \<open>r\<close> rows and \<open>c\<close> columns with entry \<open>g i j\<close> at row \<open>i\<close>, column \<open>j\<close>\<close>
  "tabulate r c g = map (\<lambda>i. map (g i) [0..<c]) [0..<r]"

definition ints :: "int list list \<Rightarrow> float64 Matrix" where
  \<comment> \<open>\<open>NewMatrix\<close> of a literal grid of integers, as the tests write them\<close>
  "ints d = NewMatrix (map (map f64_of_int) d)"

definition is_grid :: "nat \<Rightarrow> nat \<Rightarrow> 'a list list \<Rightarrow> bool" where
  \<comment> \<open>a grid of \<open>r\<close> rows with \<open>c\<close> entries each\<close>
  "is_grid r c d = (length d = r \<and> list_all (\<lambda>row. length row = c) d)"

definition dot_sum :: "('a::{zero,plus,times}) list list \<Rightarrow> 'a list list \<Rightarrow> nat \<Rightarrow> nat \<Rightarrow> nat \<Rightarrow> 'a" where
  \<comment> \<open>the value of \<open>sum\<close> after the loop of \<open>dot\<close>: the terms \<open>l[r][j] * u[j][c]\<close> for
      \<open>j < n\<close> added to 0 from the left, in the order of the loop\<close>
  "dot_sum l u r c n = fold (\<lambda>j s. s + l ! r ! j * u ! j ! c) [0..<n] 0"

definition upper_eq :: "('a::{zero,plus,minus,times}) list list \<Rightarrow> 'a list list \<Rightarrow> 'a list list
    \<Rightarrow> nat \<Rightarrow> nat \<Rightarrow> bool" where
  \<comment> \<open>the Doolittle equation of the entry \<open>U[i][k]\<close>\<close>
  "upper_eq a l u i k = (u ! i ! k = a ! i ! k - dot_sum l u i k i)"

definition lower_eq :: "('a::{zero,one,plus,minus,times,inverse,ord}) list list \<Rightarrow> 'a list list
    \<Rightarrow> 'a list list \<Rightarrow> nat \<Rightarrow> nat \<Rightarrow> bool" where
  \<comment> \<open>the Doolittle equation of the entry \<open>L[k][i]\<close>, with the guard of the source
      for a zero pivot\<close>
  "lower_eq a l u k i =
     (l ! k ! i = (if i = k then 1
                   else if go_eq (u ! i ! i) 0 then 0
                   else (a ! k ! i - dot_sum l u k i i) / u ! i ! i))"

definition doolittle :: "('a::{zero,one,plus,minus,times,inverse,ord}) list list \<Rightarrow> nat \<Rightarrow> nat
    \<Rightarrow> 'a list list \<Rightarrow> 'a list list \<Rightarrow> bool" where
  \<comment> \<open>\<open>l\<close> and \<open>u\<close> are grids of order \<open>n\<close> that satisfy the Doolittle equations of
      the rows of \<open>u\<close> and of the columns of \<open>l\<close> below \<open>i\<close>\<close>
  "doolittle a n i l u =
     (is_grid n n l \<and> is_grid n n u
      \<and> (\<forall>r<i. \<forall>k<n. upper_eq a l u r k) \<and> (\<forall>c<i. \<forall>k<n. lower_eq a l u k c))"

definition identity_grid :: "nat \<Rightarrow> ('a::{zero,one}) list list" where
  \<comment> \<open>the rows that \<open>NewIdentityMatrix\<close> builds\<close>
  "identity_grid n = map (\<lambda>i. (replicate n 0)[i := 1]) [0..<n]"

definition augmented_grid :: "('a::{zero,one}) list list \<Rightarrow> nat \<Rightarrow> 'a list list" where
  \<comment> \<open>the entries of \<open>a\<close> in the left half, the identity in the right half\<close>
  "augmented_grid a n =
     tabulate n (n * 2) (\<lambda>i j. if j < n then a ! i ! j else if j = i + n then 1 else 0)"

definition unit_lower_triangular :: "('a::{zero,one}) Matrix \<Rightarrow> bool" where
  \<comment> \<open>1 on the diagonal, 0 above it\<close>
  "unit_lower_triangular L =
     (\<forall>i<lines L. \<forall>j<columns L. (i = j \<longrightarrow> data L ! i ! j = 1) \<and> (i < j \<longrightarrow> data L ! i ! j = 0))"

definition upper_triangular :: "('a::zero) Matrix \<Rightarrow> bool" where
  \<comment> \<open>0 below the diagonal\<close>
  "upper_triangular U = (\<forall>i<lines U. \<forall>j<columns U. j < i \<longrightarrow> data U ! i ! j = 0)"

definition del :: "nat \<Rightarrow> 'a list \<Rightarrow> 'a list" where
  \<comment> \<open>the list without its entry at index \<open>j\<close>\<close>
  "del j xs = take j xs @ drop (Suc j) xs"

function laplace_det :: "('a::comm_ring_1) list list \<Rightarrow> 'a" where
  \<comment> \<open>the determinant of a square grid, by expansion along the last row\<close>
  "laplace_det rows =
     (if rows = [] then 1
      else (\<Sum>j \<leftarrow> [0..<length rows].
              (- 1) ^ (length rows - 1 + j) * last rows ! j * laplace_det (map (del j) (butlast rows))))"
  by pat_completeness auto
termination
  by (relation "measure length") auto

declare laplace_det.simps [simp del]

definition pair_term :: "('a::comm_ring_1) list list \<Rightarrow> 'a list \<Rightarrow> 'a list \<Rightarrow> nat \<times> nat \<Rightarrow> 'a" where
  \<comment> \<open>the term of the rows \<open>a\<close>, \<open>b\<close> for the columns \<open>j\<close>, \<open>i\<close> in the expansion of
      \<open>laplace_det (R @ [a, b])\<close> along its last two rows\<close>
  "pair_term R a b p =
     (case p of (j, i) \<Rightarrow>
        (- 1) ^ (Suc (length R) + j) * b ! j
        * ((- 1) ^ (length R + i) * del j a ! i * laplace_det (map (del i) (map (del j) R))))"

definition pair_swap :: "nat \<times> nat \<Rightarrow> nat \<times> nat" where
  \<comment> \<open>the term with which a term of that expansion cancels when \<open>a\<close> and \<open>b\<close> change places\<close>
  "pair_swap p = (case p of (j, i) \<Rightarrow> if i < j then (i, j - 1) else (Suc i, j))"

definition leading :: "nat \<Rightarrow> 'a list list \<Rightarrow> 'a list list" where
  \<comment> \<open>the leading principal submatrix of order \<open>k\<close>\<close>
  "leading k d = map (take k) (take k d)"

definition leading_minors_nonzero :: "('a::comm_ring_1) list list \<Rightarrow> bool" where
  \<comment> \<open>the leading principal minors of every order from 1 to the number of rows are not 0\<close>
  "leading_minors_nonzero d = list_all (\<lambda>k. laplace_det (leading k d) \<noteq> 0) [1..<Suc (length d)]"

fun valof :: "float64 \<Rightarrow> real" where
  \<comment> \<open>the real number that a finite float64 stands for (an infinity and a NaN
      stand for none; they are given 0)\<close>
  "valof (Finite s m e) =
     (if s then - 1 else 1) * of_int m * (if 0 \<le> e then 2 ^ nat e else 1 / 2 ^ nat (- e))"
| "valof (Infinity s) = 0"
| "valof NaN = 0"



definition unchanged :: "heap \<Rightarrow> heap \<Rightarrow> bool" where
  \<comment> \<open>every cell of \<open>h\<close> is in \<open>h'\<close>, at its address, with the same contents\<close>
  "unchanged h h' = (length h \<le> length h' \<and> take (length h) h' = h)"

definition scratch :: "heap \<Rightarrow> heap \<Rightarrow> addr \<Rightarrow> bool" where
  \<comment> \<open>\<open>d\<close> is a slice of rows allocated after \<open>h0\<close>, and so are its rows\<close>
  "scratch h0 h d =
     (length h0 \<le> d
      \<and> (case load_rows h d of
            Inl e \<Rightarrow> False
          | Inr rs \<Rightarrow> list_all (\<lambda>r. case r of None \<Rightarrow> True | Some a \<Rightarrow> length h0 \<le> a) rs))"

definition keeps :: "heap \<Rightarrow> addr list \<Rightarrow> heap \<Rightarrow> bool" where
  \<comment> \<open>the invariant of the loops: the cells of \<open>h0\<close> are unchanged and the grids \<open>F\<close>
      that the operation writes are its own\<close>
  "keeps h0 F h = (unchanged h0 h \<and> list_all (scratch h0 h) F)"



section \<open>Basic facts: results, checked indexing, loops\<close>

lemma bind_Inr [simp]: "bind (Inr x) f = f x"
  by (simp add: bind_def)

lemma bind_Inl [simp]: "bind (Inl e) f = Inl e"
  by (simp add: bind_def)


lemma index_in_range [simp]: "i < length xs \<Longrightarrow> index xs i = Inr (xs ! i)"
  by (simp add: index_def)

lemma put_in_range [simp]: "i < length xs \<Longrightarrow> put xs i v = Inr (xs[i := v])"
  by (simp add: put_def)

lemma at2_in_range [simp]:
  "i < length d \<Longrightarrow> j < length (d ! i) \<Longrightarrow> at2 d i j = Inr (d ! i ! j)"
  by (simp add: at2_def)

lemma put2_in_range [simp]:
  "i < length d \<Longrightarrow> j < length (d ! i) \<Longrightarrow> put2 d i j v = Inr (d[i := (d ! i)[j := v]])"
  by (simp add: put2_def)

lemma rectangular_row:
  "rectangular m \<Longrightarrow> i < lines m \<Longrightarrow> length (data m ! i) = columns m"
  by (simp add: rectangular_def list_all_length)

lemma rectangular_at2:
  "rectangular m \<Longrightarrow> i < lines m \<Longrightarrow> j < columns m \<Longrightarrow> at2 (data m) i j = Inr (data m ! i ! j)"
  by (simp add: rectangular_def list_all_length)

lemma collect_map:
  "(\<And>i. i \<in> set is \<Longrightarrow> cell i = Inr (g i)) \<Longrightarrow> collect is cell = Inr (map g is)"
  by (induction "is") simp_all

lemma grid_tabulate:
  assumes "\<And>i j. i < r \<Longrightarrow> j < c \<Longrightarrow> cell i j = Inr (g i j)"
  shows "grid r c cell = Inr (tabulate r c g)"
  unfolding grid_def tabulate_def
  by (rule collect_map) (auto intro!: collect_map simp: assms)

lemma tabulate_nth [simp]: "i < r \<Longrightarrow> j < c \<Longrightarrow> tabulate r c g ! i ! j = g i j"
  by (simp add: tabulate_def)

lemma length_tabulate [simp]: "length (tabulate r c g) = r"
  by (simp add: tabulate_def)

lemma length_tabulate_row [simp]: "i < r \<Longrightarrow> length (tabulate r c g ! i) = c"
  by (simp add: tabulate_def)

lemma NewMatrix_tabulate:
  "(r = 0) = (c = 0) \<Longrightarrow>
   NewMatrix (tabulate r c g) = \<lparr>lines = r, columns = c, data = tabulate r c g\<rparr>"
  by (cases r) (auto simp: NewMatrix_def tabulate_def empty_matrix_def upt_conv_Cons
      simp del: upt_Suc)

lemma rectangular_tabulate:
  "(r = 0) = (c = 0) \<Longrightarrow> rectangular \<lparr>lines = r, columns = c, data = tabulate r c g\<rparr>"
  by (simp add: rectangular_def list_all_length)

lemma for_each_append:
  "for_each (xs @ ys) body s = bind (for_each xs body s) (for_each ys body)"
  by (induction xs arbitrary: s) (simp_all add: bind_def split: sum.splits)

lemma for_each_invariant_list:
  assumes "P 0 s"
    and "\<And>k t. k < length xs \<Longrightarrow> P k t \<Longrightarrow> \<exists>t'. body (xs ! k) t = Inr t' \<and> P (Suc k) t'"
  shows "\<exists>t. for_each xs body s = Inr t \<and> P (length xs) t"
  using assms
proof (induction xs arbitrary: P s)
  case Nil
  then show ?case by simp
next
  case (Cons x xs)
  from Cons.prems(2) [of 0 s] Cons.prems(1)
  obtain t where t: "body x s = Inr t" "P (Suc 0) t" by auto
  have "\<exists>t'. for_each xs body t = Inr t' \<and> P (Suc (length xs)) t'"
  proof (rule Cons.IH [where P = "\<lambda>k. P (Suc k)"])
    show "P (Suc 0) t" by (rule t)
  next
    fix k u
    assume "k < length xs" and "P (Suc k) u"
    then show "\<exists>t'. body (xs ! k) u = Inr t' \<and> P (Suc (Suc k)) t'"
      using Cons.prems(2) [of "Suc k" u] by simp
  qed
  with t show ?case by simp
qed

lemma for_each_invariant:
  assumes "P a s" and "a \<le> b"
    and "\<And>i t. a \<le> i \<Longrightarrow> i < b \<Longrightarrow> P i t \<Longrightarrow> \<exists>t'. body i t = Inr t' \<and> P (Suc i) t'"
  shows "\<exists>t. for_each [a..<b] body s = Inr t \<and> P b t"
proof -
  have "\<exists>t. for_each [a..<b] body s = Inr t \<and> P (a + length [a..<b]) t"
  proof (rule for_each_invariant_list [where P = "\<lambda>k. P (a + k)"])
    show "P (a + 0) s" using assms(1) by simp
  next
    fix k t
    assume "k < length [a..<b]" and "P (a + k) t"
    then show "\<exists>t'. body ([a..<b] ! k) t = Inr t' \<and> P (a + Suc k) t'"
      using assms(3) [of "a + k" t] by simp
  qed
  then show ?thesis using assms(2) by simp
qed

lemma for_each_fold:
  assumes "\<And>i t. i \<in> set xs \<Longrightarrow> body i t = Inr (g i t)"
  shows "for_each xs body s = Inr (fold g xs s)"
  using assms by (induction xs arbitrary: s) simp_all

lemma for_each_unchanged:
  assumes "\<And>i. i \<in> set xs \<Longrightarrow> body i s = Inr s"
  shows "for_each xs body s = Inr s"
  using assms by (induction xs) simp_all

section \<open>Element access\<close>

lemma Position_error_cases:
  "(\<exists>e. Position m row col = Inl e \<and> IndexOutOfRange e)
     = (row = 0 \<or> col = 0 \<or> int (lines m) < row \<or> int (columns m) < col)"
proof (cases "row = 0 \<or> col = 0 \<or> int (lines m) < row \<or> int (columns m) < col")
  case True
  then show ?thesis
    by (auto simp: Position_def IndexOutOfRange_def)
next
  case False
  have "Position m row col \<noteq> Inl (Err s)" for s
    using False
    by (auto simp: Position_def index_int_def bind_def split: if_splits sum.splits)
  then show ?thesis
    using False by (auto simp: IndexOutOfRange_def)
qed

lemma Position_in_range:
  assumes "rectangular m" and "0 < row" and "row \<le> int (lines m)"
    and "0 < col" and "col \<le> int (columns m)"
  shows "Position m row col = Inr (data m ! nat (row - 1) ! nat (col - 1))"
proof -
  have r: "nat (row - 1) < lines m" and c: "nat (col - 1) < columns m"
    using assms by linarith+
  have len: "length (data m) = lines m"
    using assms(1) by (simp add: rectangular_def)
  have "length (data m ! nat (row - 1)) = columns m"
    using assms(1) r by (rule rectangular_row)
  with r c len assms show ?thesis
    by (simp add: Position_def index_int_def)
qed

text \<open>
  C5. \<open>Position\<close> is to fail with an error of the kind IndexOutOfRange if and only if
  \<open>row\<close> is 0, \<open>col\<close> is 0, \<open>row\<close> exceeds the number of lines or \<open>col\<close> exceeds the number
  of columns, and to return the stored entry in every other case. The code does so for
  every index that is not negative (\<open>Position_error_cases\<close>, \<open>Position_in_range\<close>), but
  it tests \<open>row == 0\<close> and \<open>col == 0\<close> where it should test \<open>row <= 0\<close> and \<open>col <= 0\<close>:
  on the matrix \<open>[[1]]\<close> the call \<open>Position(-1, 1)\<close> is none of the four error cases and
  yet returns no entry; it passes the four tests and panics at \<open>m.data[row-1]\<close>.
\<close>

theorem Position_negative_row_panics:
  "rectangular (ints [[1]]) \<and> Position (ints [[1]]) (- 1) 1 = Inl Panic"
  by (simp add: ints_def NewMatrix_def rectangular_def Position_def index_int_def)

section \<open>Equality of matrices\<close>

lemma go_eq_commute: "go_eq a b = go_eq b a"
  by (auto simp: go_eq_def)

lemma at2_Inl: "at2 d i j = Inl e \<Longrightarrow> e = Panic"
  by (auto simp: at2_def index_def bind_def split: if_splits sum.splits)

lemma equal_cells_commute: "equal_cells ps a b = equal_cells ps b a"
proof (induction ps)
  case Nil
  show ?case by simp
next
  case (Cons p ps)
  obtain i j where p: "p = (i, j)" by (cases p)
  show ?case
  proof (cases "at2 a i j")
    case (Inl e)
    then show ?thesis
      using at2_Inl [of a i j e] at2_Inl [of b i j]
      by (cases "at2 b i j") (auto simp: p)
  next
    case (Inr x)
    then show ?thesis
      using at2_Inl [of b i j] Cons.IH
      by (cases "at2 b i j") (auto simp: p go_eq_commute)
  qed
qed

lemma equal_cells_in_range:
  assumes "\<And>i j. (i, j) \<in> set ps \<Longrightarrow>
     i < length a \<and> j < length (a ! i) \<and> i < length b \<and> j < length (b ! i)"
  shows "equal_cells ps a b = Inr (\<forall>(i, j) \<in> set ps. go_eq (a ! i ! j) (b ! i ! j))"
  using assms
proof (induction ps)
  case Nil
  show ?case by simp
next
  case (Cons p ps)
  obtain i j where p: "p = (i, j)" by (cases p)
  have here: "i < length a \<and> j < length (a ! i) \<and> i < length b \<and> j < length (b ! i)"
    using Cons.prems [of i j] by (simp add: p)
  have rest: "equal_cells ps a b = Inr (\<forall>(i, j) \<in> set ps. go_eq (a ! i ! j) (b ! i ! j))"
    by (rule Cons.IH) (use Cons.prems in auto)
  show ?case
    using here rest by (simp add: p)
qed

lemma Equals_rectangular:
  assumes "rectangular A" and "rectangular B"
    and "lines A = lines B" and "columns A = columns B"
  shows "Equals A B =
     Inr (\<forall>i<lines A. \<forall>j<columns A. go_eq (data A ! i ! j) (data B ! i ! j))"
proof -
  have "equal_cells (List.product [0..<lines A] [0..<columns A]) (data A) (data B) =
     Inr (\<forall>(i, j) \<in> set (List.product [0..<lines A] [0..<columns A]).
            go_eq (data A ! i ! j) (data B ! i ! j))"
  proof (rule equal_cells_in_range)
    fix i j
    assume "(i, j) \<in> set (List.product [0..<lines A] [0..<columns A])"
    then have "i < lines A" "j < columns A" by auto
    then show "i < length (data A) \<and> j < length (data A ! i)
        \<and> i < length (data B) \<and> j < length (data B ! i)"
      using assms rectangular_row [of A i] rectangular_row [of B i]
      by (simp add: rectangular_def)
  qed
  then show ?thesis
    using assms by (auto simp: Equals_def)
qed

lemma float64_go_eq_self: "go_eq (x::float64) x = (x \<noteq> NaN)"
  by (cases x) (simp_all add: go_eq_def less_eq_float64_def)

lemma Equals_commute: "Equals A B = Equals B A"
proof (cases "lines A = lines B \<and> columns A = columns B")
  case True
  then show ?thesis
    using equal_cells_commute [of "List.product [0..<lines A] [0..<columns A]" "data A" "data B"]
    by (simp add: Equals_def)
next
  case False
  then show ?thesis
    by (auto simp: Equals_def)
qed

lemma rectangular_entries:
  assumes "rectangular A"
  shows "(\<forall>i<lines A. \<forall>j<columns A. P (data A ! i ! j)) = (\<forall>row \<in> set (data A). \<forall>x \<in> set row. P x)"
proof
  assume l: "\<forall>i<lines A. \<forall>j<columns A. P (data A ! i ! j)"
  show "\<forall>row \<in> set (data A). \<forall>x \<in> set row. P x"
  proof (intro ballI)
    fix row x
    assume "row \<in> set (data A)" and "x \<in> set row"
    then obtain i j where i: "i < length (data A)" "data A ! i = row"
      and j: "j < length row" "row ! j = x"
      by (auto simp: in_set_conv_nth)
    have "i < lines A"
      using assms i by (simp add: rectangular_def)
    moreover have "j < columns A"
      using rectangular_row [OF assms \<open>i < lines A\<close>] i j by simp
    ultimately show "P x"
      using l i j by auto
  qed
next
  assume r: "\<forall>row \<in> set (data A). \<forall>x \<in> set row. P x"
  show "\<forall>i<lines A. \<forall>j<columns A. P (data A ! i ! j)"
  proof (intro allI impI)
    fix i j
    assume i: "i < lines A" and j: "j < columns A"
    have "data A ! i \<in> set (data A)"
      using assms i by (simp add: rectangular_def)
    moreover have "data A ! i ! j \<in> set (data A ! i)"
      using rectangular_row [OF assms i] j by simp
    ultimately show "P (data A ! i ! j)"
      using r by blast
  qed
qed

text \<open>
  C7 (as amended). \<open>Equals\<close> is symmetric: for all matrices \<open>A\<close> and \<open>B\<close>, \<open>A.Equals(B)\<close>
  and \<open>B.Equals(A)\<close> are the same (the same boolean, or both panic on a ragged grid).
  It is reflexive exactly on the matrices without a NaN entry: for a matrix of the data
  model, \<open>A.Equals(A)\<close> is true if and only if no entry of \<open>A\<close> is a NaN.
\<close>

theorem Equals_symmetric_and_reflexive_without_NaN:
  fixes A B :: "float64 Matrix"
  shows "Equals A B = Equals B A
    \<and> (rectangular A \<longrightarrow> Equals A A = Inr (\<forall>row \<in> set (data A). \<forall>x \<in> set row. x \<noteq> NaN))"
proof -
  have "Equals A A = Inr (\<forall>row \<in> set (data A). \<forall>x \<in> set row. x \<noteq> NaN)" if r: "rectangular A"
    using Equals_rectangular [OF r r] rectangular_entries [OF r, of "\<lambda>x. x \<noteq> NaN"]
    by (simp add: float64_go_eq_self)
  then show ?thesis
    using Equals_commute [of A B] by simp
qed

theorem Equals_symmetric_and_reflexive_without_NaN_witness:
  "rectangular (ints [[1, 2], [3, 4]])
   \<and> Equals (ints [[1, 2], [3, 4]]) (ints [[1, 2], [3, 4]]) = Inr True
   \<and> Equals (ints [[1, 2], [3, 4]]) (ints [[1, 2], [3, 5]])
       = Equals (ints [[1, 2], [3, 5]]) (ints [[1, 2], [3, 4]])"
proof -
  have r: "rectangular (ints [[1, 2], [3, 4]])"
    by (simp add: ints_def NewMatrix_def rectangular_def)
  have n: "\<forall>row \<in> set (data (ints [[1, 2], [3, 4]])). \<forall>x \<in> set row. x \<noteq> NaN"
    by code_simp
  show ?thesis
    using r n
      Equals_symmetric_and_reflexive_without_NaN
        [of "ints [[1, 2], [3, 4]]" "ints [[1, 2], [3, 4]]"]
      Equals_symmetric_and_reflexive_without_NaN
        [of "ints [[1, 2], [3, 4]]" "ints [[1, 2], [3, 5]]"]
    by simp
qed

theorem Equals_not_reflexive_on_NaN:
  "rectangular (NewMatrix [[NaN]]) \<and> Equals (NewMatrix [[NaN]]) (NewMatrix [[NaN]]) = Inr False"
  by code_simp

section \<open>Sum and subtraction\<close>

lemma Sum_rectangular:
  assumes "rectangular A" and "rectangular B"
    and "lines A = lines B" and "columns A = columns B"
  shows "Sum A B = Inr \<lparr>lines = lines A, columns = columns A,
     data = tabulate (lines A) (columns A) (\<lambda>i j. data A ! i ! j + data B ! i ! j)\<rparr>"
proof -
  have "grid (lines A) (columns A)
          (\<lambda>i j. bind (at2 (data A) i j) (\<lambda>a. bind (at2 (data B) i j) (\<lambda>b. Inr (a + b))))
        = Inr (tabulate (lines A) (columns A) (\<lambda>i j. data A ! i ! j + data B ! i ! j))"
    by (rule grid_tabulate) (simp add: assms rectangular_at2)
  moreover have "(lines A = 0) = (columns A = 0)"
    using assms(1) by (simp add: rectangular_def)
  ultimately show ?thesis
    using assms by (simp add: Sum_def NewMatrix_tabulate)
qed

lemma Sub_rectangular:
  assumes "rectangular A" and "rectangular B"
    and "lines A = lines B" and "columns A = columns B"
  shows "Sub A B = Inr \<lparr>lines = lines A, columns = columns A,
     data = tabulate (lines A) (columns A) (\<lambda>i j. data A ! i ! j - data B ! i ! j)\<rparr>"
proof -
  have "grid (lines A) (columns A)
          (\<lambda>i j. bind (at2 (data A) i j) (\<lambda>a. bind (at2 (data B) i j) (\<lambda>b. Inr (a - b))))
        = Inr (tabulate (lines A) (columns A) (\<lambda>i j. data A ! i ! j - data B ! i ! j))"
    by (rule grid_tabulate) (simp add: assms rectangular_at2)
  moreover have "(lines A = 0) = (columns A = 0)"
    using assms(1) by (simp add: rectangular_def)
  ultimately show ?thesis
    using assms by (simp add: Sub_def NewMatrix_tabulate)
qed

text \<open>
  C6 (as amended). For all matrices \<open>A\<close> and \<open>B\<close> of the data model with the same
  shape, \<open>A.Sum(B)\<close> and the subtraction of \<open>B\<close> from it both succeed and give a matrix
  of the shape of \<open>A\<close>, and comparing it with \<open>A\<close> by \<open>Equals\<close> gives true exactly when
  every entry satisfies \<open>(a + b) - b == a\<close> in the arithmetic of the entries. In float64
  arithmetic a rounded sum, an infinity or a NaN breaks that equation.
\<close>

theorem Sum_then_Sub:
  assumes "rectangular A" and "rectangular B"
    and "lines A = lines B" and "columns A = columns B"
  shows "\<exists>C D. Sum A B = Inr C \<and> Sub C B = Inr D
      \<and> lines D = lines A \<and> columns D = columns A
      \<and> Equals D A = Inr (\<forall>i<lines A. \<forall>j<columns A.
            go_eq ((data A ! i ! j + data B ! i ! j) - data B ! i ! j) (data A ! i ! j))"
proof -
  define C where "C = \<lparr>lines = lines A, columns = columns A,
     data = tabulate (lines A) (columns A) (\<lambda>i j. data A ! i ! j + data B ! i ! j)\<rparr>"
  define D where "D = \<lparr>lines = lines A, columns = columns A,
     data = tabulate (lines A) (columns A) (\<lambda>i j. data C ! i ! j - data B ! i ! j)\<rparr>"
  have shape: "(lines A = 0) = (columns A = 0)"
    using assms(1) by (simp add: rectangular_def)
  have rC: "rectangular C"
    unfolding C_def using shape by (rule rectangular_tabulate)
  have rD: "rectangular D"
    unfolding D_def using shape by (rule rectangular_tabulate)
  have s: "Sum A B = Inr C"
    unfolding C_def using assms by (rule Sum_rectangular)
  have d: "Sub C B = Inr D"
    using Sub_rectangular [OF rC assms(2)] assms by (simp add: C_def D_def)
  have "Equals D A = Inr (\<forall>i<lines D. \<forall>j<columns D. go_eq (data D ! i ! j) (data A ! i ! j))"
    using rD assms(1) by (rule Equals_rectangular) (simp_all add: D_def)
  also have "(\<forall>i<lines D. \<forall>j<columns D. go_eq (data D ! i ! j) (data A ! i ! j))
      = (\<forall>i<lines A. \<forall>j<columns A.
            go_eq ((data A ! i ! j + data B ! i ! j) - data B ! i ! j) (data A ! i ! j))"
    by (simp add: D_def C_def)
  finally show ?thesis
    using s d by (auto simp: D_def)
qed

theorem Sum_then_Sub_witness:
  "rectangular (ints [[1, 2], [3, 4]]) \<and> rectangular (ints [[5, 6], [7, 8]])
   \<and> (\<exists>C D. Sum (ints [[1, 2], [3, 4]]) (ints [[5, 6], [7, 8]]) = Inr C
          \<and> Sub C (ints [[5, 6], [7, 8]]) = Inr D
          \<and> Equals D (ints [[1, 2], [3, 4]]) = Inr True)"
proof -
  have rA: "rectangular (ints [[1, 2], [3, 4]])"
    by (simp add: ints_def NewMatrix_def rectangular_def)
  have rB: "rectangular (ints [[5, 6], [7, 8]])"
    by (simp add: ints_def NewMatrix_def rectangular_def)
  have l: "lines (ints [[1, 2], [3, 4]]) = lines (ints [[5, 6], [7, 8]])"
    by (simp add: ints_def NewMatrix_def)
  have c: "columns (ints [[1, 2], [3, 4]]) = columns (ints [[5, 6], [7, 8]])"
    by (simp add: ints_def NewMatrix_def)
  have exact: "\<forall>i<lines (ints [[1, 2], [3, 4]]). \<forall>j<columns (ints [[1, 2], [3, 4]]).
      go_eq ((data (ints [[1, 2], [3, 4]]) ! i ! j + data (ints [[5, 6], [7, 8]]) ! i ! j)
             - data (ints [[5, 6], [7, 8]]) ! i ! j) (data (ints [[1, 2], [3, 4]]) ! i ! j)"
    by code_simp
  show ?thesis
    using Sum_then_Sub [OF rA rB l c] rA rB exact by auto
qed

theorem Sum_then_Sub_rounds:
  "rectangular (ints [[1]]) \<and> rectangular (ints [[9007199254740992]])
   \<and> lines (ints [[1]]) = lines (ints [[9007199254740992]])
   \<and> columns (ints [[1]]) = columns (ints [[9007199254740992]])
   \<and> bind (Sum (ints [[1]]) (ints [[9007199254740992]]))
        (\<lambda>C. bind (Sub C (ints [[9007199254740992]])) (\<lambda>D. Equals D (ints [[1]]))) = Inr False"
  by code_simp

section \<open>The decomposition of the test matrix\<close>

text \<open>
  C2. The matrix \<open>[[2,-1,-2],[-4,6,3],[-4,-2,8]]\<close> is decomposed by \<open>LU\<close>, without an
  error, into exactly \<open>L = [[1,0,0],[-2,1,0],[-2,-1,1]]\<close> and
  \<open>U = [[2,-1,-2],[0,4,-1],[0,0,3]]\<close> (every entry the same float64, the zeros positive).
\<close>

theorem LU_of_the_test_matrix:
  "LU (ints [[2, - 1, - 2], [- 4, 6, 3], [- 4, - 2, 8]])
   = Inr (ints [[1, 0, 0], [- 2, 1, 0], [- 2, - 1, 1]],
          ints [[2, - 1, - 2], [0, 4, - 1], [0, 0, 3]])"
  by code_simp

section \<open>A zero pivot in the inverse\<close>

text \<open>
  C10. \<open>Inverse\<close> does not test the pivot \<open>augmented[i][i]\<close>. For the square matrix
  \<open>[[0,1],[-1,0]]\<close> the computed determinant is 1, hence not 0; the pass that
  interchanges rows leaves \<open>augmented = [[0,1,1,0],[-1,0,0,1]]\<close>, whose pivot
  \<open>augmented[0][0]\<close> is 0; the elimination divides by it and fills rows with NaN and
  infinities; and \<open>Inverse\<close> returns, with no error, a matrix whose four entries are NaN.
\<close>

theorem Inverse_divides_by_zero_pivot:
  "Determinant (ints [[0, 1], [- 1, 0]]) = Inr 1 \<and> \<not> go_eq (1::float64) 0
   \<and> bind (augment (ints [[0, 1], [- 1, 0]]) 2) (interchange 2)
       = Inr (map (map f64_of_int) [[0, 1, 1, 0], [- 1, 0, 0, 1]])
   \<and> at2 (map (map f64_of_int) [[0, 1, 1, 0], [- 1, 0, 0, 1]]) 0 0 = Inr 0
   \<and> eliminate 2 (map (map f64_of_int) [[0, 1, 1, 0], [- 1, 0, 0, 1]])
       = Inr [[NaN, NaN, NaN, NaN], [NaN, Infinity False, Infinity False, NaN]]
   \<and> Inverse (ints [[0, 1], [- 1, 0]]) = Inr (NewMatrix [[NaN, NaN], [NaN, NaN]])"
  by code_simp

section \<open>The loops of the LU decomposition\<close>

lemma is_grid_length: "is_grid r c d \<Longrightarrow> length d = r"
  by (simp add: is_grid_def)

lemma is_grid_row: "is_grid r c d \<Longrightarrow> i < r \<Longrightarrow> length (d ! i) = c"
  by (simp add: is_grid_def list_all_length)

lemma is_gridI:
  "length d = r \<Longrightarrow> (\<And>i. i < r \<Longrightarrow> length (d ! i) = c) \<Longrightarrow> is_grid r c d"
  by (simp add: is_grid_def list_all_length)

lemma is_grid_update:
  assumes "is_grid r c d"
  shows "is_grid r c (d[i := (d ! i)[j := v]])"
proof (rule is_gridI)
  show "length (d[i := (d ! i)[j := v]]) = r"
    using assms by (simp add: is_grid_length)
next
  fix k
  assume "k < r"
  then show "length (d[i := (d ! i)[j := v]] ! k) = c"
    using assms by (cases "k = i") (simp_all add: is_grid_length is_grid_row)
qed

lemma is_grid_zeros: "is_grid r c (zeros r c)"
  by (simp add: is_grid_def zeros_def list_all_length)

lemma rectangular_is_grid: "rectangular m \<Longrightarrow> is_grid (lines m) (columns m) (data m)"
  by (simp add: rectangular_def is_grid_def)

lemma is_grid_at2:
  "is_grid r c d \<Longrightarrow> i < r \<Longrightarrow> j < c \<Longrightarrow> at2 d i j = Inr (d ! i ! j)"
  by (simp add: is_grid_length is_grid_row)

lemma is_grid_put2:
  "is_grid r c d \<Longrightarrow> i < r \<Longrightarrow> j < c \<Longrightarrow> put2 d i j v = Inr (d[i := (d ! i)[j := v]])"
  by (simp add: is_grid_length is_grid_row)

lemma nth_update2:
  "i < length d \<Longrightarrow> j < length (d ! i) \<Longrightarrow>
   d[i := (d ! i)[j := v]] ! r ! c = (if r = i \<and> c = j then v else d ! r ! c)"
  by (cases "r = i"; cases "c = j") simp_all

lemma dot_sum_cong:
  assumes "\<And>j. j < n \<Longrightarrow> l ! r ! j = l' ! r ! j \<and> u ! j ! c = u' ! j ! c"
  shows "dot_sum l u r c n = dot_sum l' u' r c n"
  unfolding dot_sum_def
  by (rule fold_cong) (simp_all add: assms)

lemma dot_in_range:
  assumes "is_grid N N l" and "is_grid N N u" and "r < N" and "c < N" and "n \<le> N"
  shows "dot l u r c n = Inr (dot_sum l u r c n)"
  unfolding dot_def dot_sum_def
  by (rule for_each_fold) (use assms in \<open>simp add: is_grid_at2\<close>)

lemma LU_upper_step:
  assumes "rectangular m" and "lines m = n" and "columns m = n"
    and "is_grid n n l" and "is_grid n n u" and "i < n" and "k < n"
  shows "LU_upper m i k (l, u)
    = Inr (l, u[i := (u ! i)[k := data m ! i ! k - dot_sum l u i k i]])"
  using assms
  by (simp add: LU_upper_def dot_in_range [where N = n] rectangular_at2 is_grid_put2)

lemma LU_lower_step:
  assumes "rectangular m" and "lines m = n" and "columns m = n"
    and "is_grid n n l" and "is_grid n n u" and "i < n" and "k < n"
  shows "LU_lower m i k (l, u)
    = Inr (l[k := (l ! k)[i := (if i = k then 1
                                 else if go_eq (u ! i ! i) 0 then 0
                                 else (data m ! k ! i - dot_sum l u k i i) / u ! i ! i)]], u)"
  using assms
  by (simp add: LU_lower_def dot_in_range [where N = n] rectangular_at2 is_grid_put2
      is_grid_at2)

lemma LU_upper_loop:
  assumes m: "rectangular m" "lines m = n" "columns m = n"
    and l: "is_grid n n l" and u: "is_grid n n u" and i: "i < n"
  shows "\<exists>u'. for_each [0..<n] (LU_upper m i) (l, u) = Inr (l, u')
      \<and> is_grid n n u'
      \<and> (\<forall>r<n. r \<noteq> i \<longrightarrow> u' ! r = u ! r)
      \<and> (\<forall>k<n. upper_eq (data m) l u' i k)"
proof -
  define P where "P k s = (fst s = l \<and> is_grid n n (snd s)
      \<and> (\<forall>r<n. r \<noteq> i \<longrightarrow> snd s ! r = u ! r)
      \<and> (\<forall>k'<k. upper_eq (data m) l (snd s) i k'))" for k and s :: "'a list list \<times> 'a list list"
  have "\<exists>t. for_each [0..<n] (LU_upper m i) (l, u) = Inr t \<and> P n t"
  proof (rule for_each_invariant)
    show "P 0 (l, u)" by (simp add: P_def u)
    show "0 \<le> n" by simp
  next
    fix k t
    assume k: "k < n" and "P k t"
    then obtain u1 where t: "t = (l, u1)" and u1: "is_grid n n u1"
      and rows: "\<forall>r<n. r \<noteq> i \<longrightarrow> u1 ! r = u ! r"
      and eqs: "\<forall>k'<k. upper_eq (data m) l u1 i k'"
      by (cases t) (auto simp: P_def)
    define v where "v = data m ! i ! k - dot_sum l u1 i k i"
    define u2 where "u2 = u1[i := (u1 ! i)[k := v]]"
    have step: "LU_upper m i k t = Inr (l, u2)"
      unfolding t u2_def v_def using m l u1 i k by (rule LU_upper_step)
    have len: "i < length u1" "k < length (u1 ! i)"
      using u1 i k by (simp_all add: is_grid_length is_grid_row)
    have entry: "u2 ! r ! c = (if r = i \<and> c = k then v else u1 ! r ! c)" for r c
      unfolding u2_def using len by (rule nth_update2)
    have dots: "dot_sum l u2 i c i = dot_sum l u1 i c i" for c
      by (rule dot_sum_cong) (simp add: entry)
    have "upper_eq (data m) l u2 i k'" if "k' < Suc k" for k'
    proof (cases "k' = k")
      case True
      then show ?thesis by (simp add: upper_eq_def entry dots v_def)
    next
      case False
      with that eqs have "upper_eq (data m) l u1 i k'" by simp
      with False show ?thesis by (simp add: upper_eq_def entry dots)
    qed
    moreover have "is_grid n n u2"
      unfolding u2_def using u1 by (rule is_grid_update)
    moreover have "\<forall>r<n. r \<noteq> i \<longrightarrow> u2 ! r = u ! r"
      using rows by (simp add: u2_def)
    ultimately have "P (Suc k) (l, u2)" by (simp add: P_def)
    with step show "\<exists>t'. LU_upper m i k t = Inr t' \<and> P (Suc k) t'" by blast
  qed
  then show ?thesis by (auto simp: P_def)
qed

lemma LU_lower_loop:
  assumes m: "rectangular m" "lines m = n" "columns m = n"
    and l: "is_grid n n l" and u: "is_grid n n u" and i: "i < n"
  shows "\<exists>l'. for_each [0..<n] (LU_lower m i) (l, u) = Inr (l', u)
      \<and> is_grid n n l'
      \<and> (\<forall>r<n. \<forall>c<n. c \<noteq> i \<longrightarrow> l' ! r ! c = l ! r ! c)
      \<and> (\<forall>k<n. lower_eq (data m) l' u k i)"
proof -
  define P where "P k s = (snd s = u \<and> is_grid n n (fst s)
      \<and> (\<forall>r<n. \<forall>c<n. c \<noteq> i \<longrightarrow> fst s ! r ! c = l ! r ! c)
      \<and> (\<forall>k'<k. lower_eq (data m) (fst s) u k' i))" for k and s :: "'a list list \<times> 'a list list"
  have "\<exists>t. for_each [0..<n] (LU_lower m i) (l, u) = Inr t \<and> P n t"
  proof (rule for_each_invariant)
    show "P 0 (l, u)" by (simp add: P_def l)
    show "0 \<le> n" by simp
  next
    fix k t
    assume k: "k < n" and "P k t"
    then obtain l1 where t: "t = (l1, u)" and l1: "is_grid n n l1"
      and cols: "\<forall>r<n. \<forall>c<n. c \<noteq> i \<longrightarrow> l1 ! r ! c = l ! r ! c"
      and eqs: "\<forall>k'<k. lower_eq (data m) l1 u k' i"
      by (cases t) (auto simp: P_def)
    define v where "v = (if i = k then 1
        else if go_eq (u ! i ! i) 0 then 0
        else (data m ! k ! i - dot_sum l1 u k i i) / u ! i ! i)"
    define l2 where "l2 = l1[k := (l1 ! k)[i := v]]"
    have step: "LU_lower m i k t = Inr (l2, u)"
      unfolding t l2_def v_def using m l1 u i k by (rule LU_lower_step)
    have len: "k < length l1" "i < length (l1 ! k)"
      using l1 i k by (simp_all add: is_grid_length is_grid_row)
    have entry: "l2 ! r ! c = (if r = k \<and> c = i then v else l1 ! r ! c)" for r c
      unfolding l2_def using len by (rule nth_update2)
    have dots: "dot_sum l2 u r i i = dot_sum l1 u r i i" for r
      by (rule dot_sum_cong) (simp add: entry)
    have "lower_eq (data m) l2 u k' i" if "k' < Suc k" for k'
    proof (cases "k' = k")
      case True
      then show ?thesis by (simp add: lower_eq_def entry dots v_def)
    next
      case False
      with that eqs have "lower_eq (data m) l1 u k' i" by simp
      with False show ?thesis by (simp add: lower_eq_def entry dots)
    qed
    moreover have "is_grid n n l2"
      unfolding l2_def using l1 by (rule is_grid_update)
    moreover have "\<forall>r<n. \<forall>c<n. c \<noteq> i \<longrightarrow> l2 ! r ! c = l ! r ! c"
      using cols by (simp add: entry)
    ultimately have "P (Suc k) (l2, u)" by (simp add: P_def)
    with step show "\<exists>t'. LU_lower m i k t = Inr t' \<and> P (Suc k) t'" by blast
  qed
  then show ?thesis by (auto simp: P_def)
qed

lemma LU_outer_step:
  assumes m: "rectangular m" "lines m = n" "columns m = n"
    and inv: "doolittle (data m) n i l u" and i: "i < n"
  shows "\<exists>l' u'. bind (for_each [0..<n] (LU_upper m i) (l, u)) (for_each [0..<n] (LU_lower m i))
        = Inr (l', u') \<and> doolittle (data m) n (Suc i) l' u'"
proof -
  from inv have l: "is_grid n n l" and u: "is_grid n n u"
    and ueq: "\<And>r k. r < i \<Longrightarrow> k < n \<Longrightarrow> upper_eq (data m) l u r k"
    and leq: "\<And>c k. c < i \<Longrightarrow> k < n \<Longrightarrow> lower_eq (data m) l u k c"
    by (simp_all add: doolittle_def)
  from LU_upper_loop [OF m l u i] obtain u'
    where up: "for_each [0..<n] (LU_upper m i) (l, u) = Inr (l, u')"
      and u': "is_grid n n u'"
      and rows: "\<And>r. r < n \<Longrightarrow> r \<noteq> i \<Longrightarrow> u' ! r = u ! r"
      and unew: "\<And>k. k < n \<Longrightarrow> upper_eq (data m) l u' i k"
    by blast
  from LU_lower_loop [OF m l u' i] obtain l'
    where lo: "for_each [0..<n] (LU_lower m i) (l, u') = Inr (l', u')"
      and l': "is_grid n n l'"
      and cols: "\<And>r c. r < n \<Longrightarrow> c < n \<Longrightarrow> c \<noteq> i \<Longrightarrow> l' ! r ! c = l ! r ! c"
      and lnew: "\<And>k. k < n \<Longrightarrow> lower_eq (data m) l' u' k i"
    by blast
  have dots: "dot_sum l' u' r c j = dot_sum l u r c j"
    if "r < n" "j \<le> i" "j \<le> n" for r c j
  proof (rule dot_sum_cong)
    fix x assume "x < j"
    with that i show "l' ! r ! x = l ! r ! x \<and> u' ! x ! c = u ! x ! c"
      by (simp add: cols rows)
  qed
  have dots_new: "dot_sum l' u' i k i = dot_sum l u' i k i" for k
  proof (rule dot_sum_cong)
    fix x assume "x < i"
    with i show "l' ! i ! x = l ! i ! x \<and> u' ! x ! k = u' ! x ! k"
      by (simp add: cols)
  qed
  have "upper_eq (data m) l' u' r k" if "r < Suc i" "k < n" for r k
  proof (cases "r = i")
    case True
    with unew [OF that(2)] show ?thesis
      by (simp add: upper_eq_def dots_new)
  next
    case False
    with that have r: "r < i" by simp
    then have "r < n" using i by simp
    with ueq [OF r that(2)] r show ?thesis
      by (simp add: upper_eq_def rows dots)
  qed
  moreover have "lower_eq (data m) l' u' k c" if "c < Suc i" "k < n" for c k
  proof (cases "c = i")
    case True
    with lnew [OF that(2)] show ?thesis by simp
  next
    case False
    with that have c: "c < i" by simp
    then have "c < n" using i by simp
    with leq [OF c that(2)] c that(2) show ?thesis
      by (simp add: lower_eq_def rows cols dots)
  qed
  ultimately have "doolittle (data m) n (Suc i) l' u'"
    using l' u' by (simp add: doolittle_def)
  with up lo show ?thesis by simp
qed

lemma LU_loops_doolittle:
  assumes m: "rectangular m" "lines m = n" "columns m = n"
  shows "\<exists>l u. LU_loops m = Inr (l, u) \<and> doolittle (data m) n n l u"
proof -
  define P where "P i s = doolittle (data m) n i (fst s) (snd s)"
    for i and s :: "'a list list \<times> 'a list list"
  have "\<exists>t. for_each [0..<n]
          (\<lambda>i s. bind (for_each [0..<n] (LU_upper m i) s) (for_each [0..<n] (LU_lower m i)))
          (zeros n n, zeros n n) = Inr t \<and> P n t"
  proof (rule for_each_invariant)
    show "P 0 (zeros n n, zeros n n)"
      by (simp add: P_def doolittle_def is_grid_zeros)
    show "0 \<le> n" by simp
  next
    fix i t
    assume "i < n" and "P i t"
    then show "\<exists>t'. bind (for_each [0..<n] (LU_upper m i) t) (for_each [0..<n] (LU_lower m i))
        = Inr t' \<and> P (Suc i) t'"
      using LU_outer_step [OF m, of i "fst t" "snd t"] by (auto simp: P_def)
  qed
  then show ?thesis
    using m by (auto simp: LU_loops_def P_def)
qed

section \<open>The decomposition and the determinant of an identity matrix\<close>

lemma f64_unit_arith:
  "(0::float64) + 0 = 0" "(0::float64) * 0 = 0" "(0::float64) * 1 = 0" "(1::float64) * 0 = 0"
  "(1::float64) * 1 = 1" "(0::float64) - 0 = 0" "(1::float64) - 0 = 1"
  "(0::float64) / 1 = 0" "(1::float64) / 1 = 1"
  by code_simp+

lemma f64_unit_order:
  "\<not> go_eq (1::float64) 0" "\<not> (0::float64) < 0" "\<not> (1::float64) < 0"
  by code_simp+

lemma f64_zero_neq_one: "(0::float64) \<noteq> 1"
  by code_simp

lemma NewMatrix_grid:
  assumes "is_grid r c d" and "(r = 0) = (c = 0)"
  shows "NewMatrix d = \<lparr>lines = r, columns = c, data = d\<rparr>"
proof (cases d)
  case Nil
  with assms show ?thesis
    by (simp add: NewMatrix_def empty_matrix_def is_grid_def)
next
  case (Cons row rows)
  with assms have "r \<noteq> 0" "length row = c"
    by (auto simp: is_grid_def)
  with assms Cons show ?thesis
    by (simp add: NewMatrix_def is_grid_def)
qed

lemma LU_doolittle:
  assumes m: "rectangular m" "lines m = n" "columns m = n"
  shows "\<exists>l u. LU m = Inr (\<lparr>lines = n, columns = n, data = l\<rparr>, \<lparr>lines = n, columns = n, data = u\<rparr>)
      \<and> doolittle (data m) n n l u"
proof -
  from LU_loops_doolittle [OF m] obtain l u
    where lu: "LU_loops m = Inr (l, u)" and d: "doolittle (data m) n n l u"
    by blast
  from d have "is_grid n n l" "is_grid n n u"
    by (simp_all add: doolittle_def)
  then have "NewMatrix l = \<lparr>lines = n, columns = n, data = l\<rparr>"
    and "NewMatrix u = \<lparr>lines = n, columns = n, data = u\<rparr>"
    by (simp_all add: NewMatrix_grid)
  with lu d m show ?thesis
    by (simp add: LU_def)
qed

lemma NewIdentityMatrix_nat:
  "NewIdentityMatrix (int n) = Inr \<lparr>lines = n, columns = n, data = identity_grid n\<rparr>"
  by (simp add: NewIdentityMatrix_def identity_grid_def)

lemma identity_grid_nth:
  "i < n \<Longrightarrow> j < n \<Longrightarrow> identity_grid n ! i ! j = (if i = j then 1 else 0)"
  by (simp add: identity_grid_def nth_list_update)

lemma is_grid_identity: "is_grid n n (identity_grid n)"
  by (simp add: is_grid_def identity_grid_def list_all_length)

lemma rectangular_identity:
  "rectangular \<lparr>lines = n, columns = n, data = identity_grid n\<rparr>"
  using is_grid_identity [of n] by (simp add: rectangular_def is_grid_def)

lemma grid_eqI:
  assumes "is_grid r c d" and "is_grid r c d'"
    and "\<And>i j. i < r \<Longrightarrow> j < c \<Longrightarrow> d ! i ! j = d' ! i ! j"
  shows "d = d'"
proof (rule nth_equalityI)
  show "length d = length d'"
    using assms by (simp add: is_grid_length)
next
  fix i assume "i < length d"
  then have i: "i < r" using assms by (simp add: is_grid_length)
  show "d ! i = d' ! i"
    by (rule nth_equalityI) (use i assms in \<open>simp_all add: is_grid_row\<close>)
qed

lemma fold_add_zero:
  fixes f :: "nat \<Rightarrow> float64"
  assumes "\<And>j. j < n \<Longrightarrow> f j = 0"
  shows "fold (\<lambda>j s. s + f j) [0..<n] 0 = 0"
  using assms by (induction n) (simp_all add: f64_unit_arith)

lemma doolittle_identity:
  fixes l u :: "float64 list list"
  assumes d: "doolittle (identity_grid n) n n l u"
  shows "l = identity_grid n \<and> u = identity_grid n"
proof -
  from d have l: "is_grid n n l" and u: "is_grid n n u"
    and ueq: "\<And>r k. r < n \<Longrightarrow> k < n \<Longrightarrow> upper_eq (identity_grid n) l u r k"
    and leq: "\<And>c k. c < n \<Longrightarrow> k < n \<Longrightarrow> lower_eq (identity_grid n) l u k c"
    by (simp_all add: doolittle_def)
  have both: "(\<forall>k<n. u ! i ! k = (if i = k then 1 else 0))
      \<and> (\<forall>k<n. l ! k ! i = (if k = i then 1 else 0))" if "i < n" for i
    using that
  proof (induction i rule: less_induct)
    case (less i)
    have urow: "u ! j ! k = (if j = k then 1 else 0)" if "j < i" "k < n" for j k
      using less.IH [of j] less.prems that by simp
    have lcol: "l ! k ! j = (if k = j then 1 else 0)" if "j < i" "k < n" for j k
      using less.IH [of j] less.prems that by simp
    have du: "dot_sum l u i k i = 0" if "k < n" for k
      unfolding dot_sum_def
      by (rule fold_add_zero) (use that less.prems in \<open>simp add: urow lcol f64_unit_arith\<close>)
    have unew: "u ! i ! k = (if i = k then 1 else 0)" if "k < n" for k
      using ueq [OF less.prems that] that less.prems
      by (simp add: upper_eq_def du identity_grid_nth f64_unit_arith)
    have dl: "dot_sum l u k i i = 0" if "k < n" for k
      unfolding dot_sum_def
      by (rule fold_add_zero) (use that less.prems in \<open>simp add: urow lcol f64_unit_arith\<close>)
    have lnew: "l ! k ! i = (if k = i then 1 else 0)" if "k < n" for k
      using leq [OF less.prems that] that less.prems unew [of i]
      by (auto simp: lower_eq_def dl identity_grid_nth f64_unit_arith f64_unit_order)
    from unew lnew show ?case by simp
  qed
  have "l = identity_grid n"
    by (rule grid_eqI [OF l is_grid_identity]) (use both in \<open>simp add: identity_grid_nth\<close>)
  moreover have "u = identity_grid n"
    by (rule grid_eqI [OF u is_grid_identity]) (use both in \<open>simp add: identity_grid_nth\<close>)
  ultimately show ?thesis by simp
qed

lemma LU_identity:
  "LU \<lparr>lines = n, columns = n, data = identity_grid n :: float64 list list\<rparr>
   = Inr (\<lparr>lines = n, columns = n, data = identity_grid n\<rparr>,
          \<lparr>lines = n, columns = n, data = identity_grid n\<rparr>)"
  using LU_doolittle [OF rectangular_identity, of n n] doolittle_identity [of n]
  by auto

lemma fold_mult_one:
  fixes f :: "nat \<Rightarrow> float64"
  assumes "\<And>j. j < n \<Longrightarrow> f j = 1"
  shows "fold (\<lambda>j s. s * f j) [0..<n] 1 = 1"
  using assms by (induction n) (simp_all add: f64_unit_arith)


lemma Determinant_identity_grid:
  assumes k: "1 \<le> k"
  shows "Determinant \<lparr>lines = k, columns = k, data = identity_grid k :: float64 list list\<rparr>
    = Inr 1"
proof -
  define I :: "float64 Matrix" where "I = \<lparr>lines = k, columns = k, data = identity_grid k\<rparr>"
  have entry: "at2 (identity_grid k :: float64 list list) i j = Inr (if i = j then 1 else 0)"
    if "i < k" "j < k" for i j
    using that is_grid_at2 [OF is_grid_identity that] by (simp add: identity_grid_nth)
  have "Determinant I = Inr 1"
  proof -
    consider "k = 1" | "k = 2" | "3 \<le> k" using k by linarith
    then show ?thesis
    proof cases
      case 1
      then show ?thesis
        using entry [of 0 0] by (simp add: Determinant_def I_def)
    next
      case 2
      then show ?thesis
        using entry [of 0 0] entry [of 1 1] entry [of 0 1] entry [of 1 0]
        by (simp add: Determinant_def I_def f64_unit_arith)
    next
      case 3
      have "for_each [0..<k] (\<lambda>i diag. bind (at2 (identity_grid k) i i) (\<lambda>x. Inr (diag * x)))
              (1::float64) = Inr (fold (\<lambda>i diag. diag * 1) [0..<k] 1)"
        by (rule for_each_fold) (simp add: entry)
      also have "fold (\<lambda>i diag. diag * 1) [0..<k] (1::float64) = 1"
        by (rule fold_mult_one) simp
      finally show ?thesis
        using 3 by (simp add: Determinant_def I_def LU_identity)
    qed
  qed
  then show ?thesis by (simp add: I_def)
qed

section \<open>The loops of the inverse\<close>

lemma for_each_preserves:
  assumes "Q s"
    and "\<And>i t. i \<in> set xs \<Longrightarrow> Q t \<Longrightarrow> \<exists>t'. body i t = Inr t' \<and> Q t'"
  shows "\<exists>t. for_each xs body s = Inr t \<and> Q t"
  using for_each_invariant_list [where P = "\<lambda>k. Q" and xs = xs and body = body and s = s] assms
  by simp

lemma for_each_single:
  assumes "x \<in> set xs" and "distinct xs"
    and "\<And>i t. i \<in> set xs \<Longrightarrow> i \<noteq> x \<Longrightarrow> body i t = Inr t"
  shows "for_each xs body s = body x s"
proof -
  from assms(1) obtain ys zs where xs: "xs = ys @ x # zs"
    by (auto simp: in_set_conv_decomp)
  with assms(2) have notin: "x \<notin> set ys" "x \<notin> set zs" by auto
  have ys: "for_each ys body s = Inr s"
    by (rule for_each_unchanged) (use assms(3) xs notin in auto)
  have zs: "for_each zs body t = Inr t" for t
    by (rule for_each_unchanged) (use assms(3) xs notin in auto)
  show ?thesis
    by (cases "body x s") (simp_all add: xs for_each_append ys zs)
qed

lemma tabulate_cong:
  "(\<And>i j. i < r \<Longrightarrow> j < c \<Longrightarrow> f i j = g i j) \<Longrightarrow> tabulate r c f = tabulate r c g"
  by (simp add: tabulate_def)

lemma copy_row:
  assumes "rectangular m" and "lines m = n" and "columns m = n" and "i < n"
  shows "for_each [0..<n] (\<lambda>j row. bind (at2 (data m) i j) (\<lambda>x. put row j x))
           (replicate (n * 2) 0)
         = Inr (map (\<lambda>j. if j < n then data m ! i ! j else 0) [0..<n * 2])"
proof -
  define P where "P k row = (row = map (\<lambda>j. if j < k then data m ! i ! j else 0) [0..<n * 2])"
    for k and row :: "'a list"
  have "\<exists>t. for_each [0..<n] (\<lambda>j row. bind (at2 (data m) i j) (\<lambda>x. put row j x))
           (replicate (n * 2) 0) = Inr t \<and> P n t"
  proof (rule for_each_invariant)
    show "P 0 (replicate (n * 2) 0)"
      unfolding P_def by (rule nth_equalityI) simp_all
    show "0 \<le> n" by simp
  next
    fix k row
    assume k: "k < n" and "P k row"
    then have row: "row = map (\<lambda>j. if j < k then data m ! i ! j else 0) [0..<n * 2]"
      by (simp add: P_def)
    have "row[k := data m ! i ! k] = map (\<lambda>j. if j < Suc k then data m ! i ! j else 0) [0..<n * 2]"
      by (rule nth_equalityI) (auto simp: row nth_list_update less_Suc_eq)
    moreover have "k < length row" using k by (simp add: row)
    ultimately show "\<exists>t'. bind (at2 (data m) i k) (\<lambda>x. put row k x) = Inr t' \<and> P (Suc k) t'"
      using assms k by (simp add: rectangular_at2 P_def)
  qed
  then show ?thesis by (simp add: P_def)
qed

lemma augment_rectangular:
  assumes "rectangular m" and "lines m = n" and "columns m = n"
  shows "augment m n = Inr (augmented_grid (data m) n)"
proof -
  define copied where
    "copied = tabulate n (n * 2) (\<lambda>i j. if j < n then data m ! i ! j else 0)"
  have c: "collect [0..<n]
             (\<lambda>i. for_each [0..<n] (\<lambda>j row. bind (at2 (data m) i j) (\<lambda>x. put row j x))
                     (replicate (n * 2) 0)) = Inr copied"
    unfolding copied_def tabulate_def
    by (rule collect_map) (simp add: copy_row [OF assms])
  define P where "P i aug = (aug = tabulate n (n * 2)
      (\<lambda>r j. if j < n then data m ! r ! j else if j = r + n \<and> r < i then 1 else 0))"
    for i and aug :: "'a list list"
  have "\<exists>t. for_each [0..<n]
          (\<lambda>i. for_each [0..<n * 2]
                  (\<lambda>j augmented. if j = i + n then put2 augmented i j 1 else Inr augmented))
          copied = Inr t \<and> P n t"
  proof (rule for_each_invariant)
    show "P 0 copied" by (simp add: P_def copied_def cong: if_cong)
    show "0 \<le> n" by simp
  next
    fix i aug
    assume i: "i < n" and "P i aug"
    then have aug: "aug = tabulate n (n * 2)
      (\<lambda>r j. if j < n then data m ! r ! j else if j = r + n \<and> r < i then 1 else 0)"
      by (simp add: P_def)
    have one: "for_each [0..<n * 2]
        (\<lambda>j augmented. if j = i + n then put2 augmented i j 1 else Inr augmented) aug
        = put2 aug i (i + n) 1"
      using for_each_single [where x = "i + n" and xs = "[0..<n * 2]"
          and body = "\<lambda>j augmented. if j = i + n then put2 augmented i j 1 else Inr augmented"
          and s = aug] i
      by simp
    have "aug[i := (aug ! i)[i + n := 1]] = tabulate n (n * 2)
      (\<lambda>r j. if j < n then data m ! r ! j else if j = r + n \<and> r < Suc i then 1 else 0)"
    proof (rule grid_eqI [where r = n and c = "n * 2"])
      show "is_grid n (n * 2) (aug[i := (aug ! i)[i + n := 1]])"
        by (rule is_grid_update) (simp add: aug is_grid_def tabulate_def list_all_length)
      show "is_grid n (n * 2) (tabulate n (n * 2)
        (\<lambda>r j. if j < n then data m ! r ! j else if j = r + n \<and> r < Suc i then 1 else 0))"
        by (simp add: is_grid_def tabulate_def list_all_length)
    next
      fix r c
      assume "r < n" "c < n * 2"
      then show "aug[i := (aug ! i)[i + n := 1]] ! r ! c
        = tabulate n (n * 2)
            (\<lambda>r j. if j < n then data m ! r ! j else if j = r + n \<and> r < Suc i then 1 else 0) ! r ! c"
        using i by (auto simp: nth_update2 aug less_Suc_eq)
    qed
    moreover have "put2 aug i (i + n) 1 = Inr (aug[i := (aug ! i)[i + n := 1]])"
      using i by (simp add: aug)
    ultimately show "\<exists>t'. for_each [0..<n * 2]
        (\<lambda>j augmented. if j = i + n then put2 augmented i j 1 else Inr augmented) aug = Inr t'
        \<and> P (Suc i) t'"
      by (simp add: one P_def)
  qed
  then have "for_each [0..<n]
          (\<lambda>i. for_each [0..<n * 2]
                  (\<lambda>j augmented. if j = i + n then put2 augmented i j 1 else Inr augmented))
          copied = Inr (augmented_grid (data m) n)"
    using tabulate_cong [where r = n and c = "n * 2"
        and f = "\<lambda>r j. if j < n then data m ! r ! j else if j = r + n \<and> r < n then 1 else 0"
        and g = "\<lambda>i j. if j < n then data m ! i ! j else if j = i + n then 1 else 0"]
    by (auto simp: P_def augmented_grid_def)
  with c show ?thesis by (simp add: augment_def)
qed

lemma is_grid_row_update:
  assumes "is_grid r c d" and "length row = c"
  shows "is_grid r c (d[i := row])"
proof (rule is_gridI)
  show "length (d[i := row]) = r"
    using assms by (simp add: is_grid_length)
next
  fix k assume "k < r"
  then show "length (d[i := row] ! k) = c"
    using assms by (cases "k = i") (simp_all add: is_grid_length is_grid_row)
qed

lemma interchange_grid:
  fixes aug :: "('a::ord) list list"
  assumes "is_grid n c aug" and "0 < c"
  shows "\<exists>t. interchange n aug = Inr t \<and> is_grid n c t"
  unfolding interchange_def
proof (rule for_each_preserves [where Q = "is_grid n c"])
  show "is_grid n c aug" by (rule assms)
next
  fix i and t :: "'a list list"
  assume "i \<in> set (rev [1..<n])" and t: "is_grid n c t"
  then have i: "1 \<le> i" "i < n" by simp_all
  then have i1: "i - 1 < n" by simp
  have len: "length t = n" using t by (rule is_grid_length)
  have swapped: "is_grid n c (t[i := t ! (i - 1), i - 1 := t ! i])"
    using t i i1 by (intro is_grid_row_update) (simp_all add: is_grid_row)
  show "\<exists>t'. bind (at2 t (i - 1) 0) (\<lambda>a. bind (at2 t i 0) (\<lambda>b.
            if a < b then
              bind (index t i) (\<lambda>tempSlice.
              bind (index t (i - 1)) (\<lambda>above.
              bind (put t i above) (\<lambda>augmented'.
                put augmented' (i - 1) tempSlice)))
            else Inr t)) = Inr t' \<and> is_grid n c t'"
    using t i i1 assms(2) swapped len
    by (simp add: is_grid_at2)
qed

lemma eliminate_grid:
  fixes aug :: "('a::{minus,times,inverse}) list list"
  assumes "is_grid n (n * 2) aug"
  shows "\<exists>t. eliminate n aug = Inr t \<and> is_grid n (n * 2) t"
  unfolding eliminate_def
proof (rule for_each_preserves [where Q = "is_grid n (n * 2)"])
  show "is_grid n (n * 2) aug" by (rule assms)
next
  fix i and t :: "'a list list"
  assume "i \<in> set [0..<n]" and t: "is_grid n (n * 2) t"
  then have i: "i < n" by simp
  show "\<exists>t'. for_each [0..<n]
          (\<lambda>j augmented.
             if j \<noteq> i then
               bind (at2 augmented j i) (\<lambda>a. bind (at2 augmented i i) (\<lambda>pivot.
                 let temp = a / pivot in
                 for_each [0..<n * 2]
                   (\<lambda>k augmented. bind (at2 augmented j k) (\<lambda>x.
                      bind (at2 augmented i k) (\<lambda>y. put2 augmented j k (x - y * temp))))
                   augmented))
             else Inr augmented) t = Inr t' \<and> is_grid n (n * 2) t'"
  proof (rule for_each_preserves [where Q = "is_grid n (n * 2)"])
    show "is_grid n (n * 2) t" by (rule t)
  next
    fix j and t1 :: "'a list list"
    assume "j \<in> set [0..<n]" and t1: "is_grid n (n * 2) t1"
    then have j: "j < n" by simp
    have inner: "\<exists>t'. for_each [0..<n * 2]
           (\<lambda>k augmented. bind (at2 augmented j k) (\<lambda>x.
              bind (at2 augmented i k) (\<lambda>y. put2 augmented j k (x - y * temp)))) t1 = Inr t'
         \<and> is_grid n (n * 2) t'" for temp
    proof (rule for_each_preserves [where Q = "is_grid n (n * 2)"])
      show "is_grid n (n * 2) t1" by (rule t1)
    next
      fix k and t2 :: "'a list list"
      assume "k \<in> set [0..<n * 2]" and t2: "is_grid n (n * 2) t2"
      then have k: "k < n * 2" by simp
      show "\<exists>t'. bind (at2 t2 j k) (\<lambda>x. bind (at2 t2 i k) (\<lambda>y. put2 t2 j k (x - y * temp)))
          = Inr t' \<and> is_grid n (n * 2) t'"
        using t2 i j k by (simp add: is_grid_at2 is_grid_put2 is_grid_update)
    qed
    show "\<exists>t'. (if j \<noteq> i then
               bind (at2 t1 j i) (\<lambda>a. bind (at2 t1 i i) (\<lambda>pivot.
                 let temp = a / pivot in
                 for_each [0..<n * 2]
                   (\<lambda>k augmented. bind (at2 augmented j k) (\<lambda>x.
                      bind (at2 augmented i k) (\<lambda>y. put2 augmented j k (x - y * temp))))
                   t1))
             else Inr t1) = Inr t' \<and> is_grid n (n * 2) t'"
      using t1 i j inner by (simp add: is_grid_at2 Let_def)
  qed
qed

lemma normalise_grid:
  fixes aug :: "('a::inverse) list list"
  assumes "is_grid n (n * 2) aug"
  shows "\<exists>t. normalise n aug = Inr t \<and> is_grid n (n * 2) t"
  unfolding normalise_def
proof (rule for_each_preserves [where Q = "is_grid n (n * 2)"])
  show "is_grid n (n * 2) aug" by (rule assms)
next
  fix i and t :: "'a list list"
  assume "i \<in> set [0..<n]" and t: "is_grid n (n * 2) t"
  then have i: "i < n" by simp
  have inner: "\<exists>t'. for_each [0..<n * 2]
        (\<lambda>j augmented. bind (at2 augmented i j) (\<lambda>x. put2 augmented i j (x / temp))) t = Inr t'
      \<and> is_grid n (n * 2) t'" for temp
  proof (rule for_each_preserves [where Q = "is_grid n (n * 2)"])
    show "is_grid n (n * 2) t" by (rule t)
  next
    fix j and t2 :: "'a list list"
    assume "j \<in> set [0..<n * 2]" and t2: "is_grid n (n * 2) t2"
    then have j: "j < n * 2" by simp
    show "\<exists>t'. bind (at2 t2 i j) (\<lambda>x. put2 t2 i j (x / temp)) = Inr t' \<and> is_grid n (n * 2) t'"
      using t2 i j by (simp add: is_grid_at2 is_grid_put2 is_grid_update)
  qed
  show "\<exists>t'. bind (at2 t i i) (\<lambda>temp.
          for_each [0..<n * 2]
            (\<lambda>j augmented. bind (at2 augmented i j) (\<lambda>x. put2 augmented i j (x / temp))) t)
        = Inr t' \<and> is_grid n (n * 2) t'"
    using t i inner by (simp add: is_grid_at2)
qed

lemma is_grid_augmented: "is_grid n (n * 2) (augmented_grid a n)"
  by (simp add: augmented_grid_def is_grid_def tabulate_def list_all_length)

lemma Determinant_succeeds:
  assumes m: "rectangular m" "lines m = n" "columns m = n" and n: "n \<noteq> 0"
  shows "\<exists>det. Determinant m = Inr det"
proof -
  consider "n = 1" | "n = 2" | "3 \<le> n" using n by linarith
  then show ?thesis
  proof cases
    case 1
    with m show ?thesis
      by (simp add: Determinant_def rectangular_at2)
  next
    case 2
    with m show ?thesis
      by (simp add: Determinant_def rectangular_at2)
  next
    case 3
    from LU_doolittle [OF m] obtain l u
      where lu: "LU m = Inr (\<lparr>lines = n, columns = n, data = l\<rparr>, \<lparr>lines = n, columns = n, data = u\<rparr>)"
        and d: "doolittle (data m) n n l u"
      by blast
    from d have u: "is_grid n n u" by (simp add: doolittle_def)
    have "for_each [0..<n] (\<lambda>i diag. bind (at2 u i i) (\<lambda>x. Inr (diag * x))) 1
        = Inr (fold (\<lambda>i diag. diag * u ! i ! i) [0..<n] 1)"
      by (rule for_each_fold) (simp add: is_grid_at2 [OF u])
    with 3 m lu show ?thesis
      by (simp add: Determinant_def)
  qed
qed

lemma Inverse_succeeds:
  assumes m: "rectangular m" "lines m = n" "columns m = n"
    and det: "Determinant m = Inr det" "\<not> go_eq det 0"
  shows "\<exists>R. Inverse m = Inr R \<and> rectangular R \<and> lines R = n \<and> columns R = n"
proof -
  have n: "n \<noteq> 0"
    using det(1) m by (auto simp: Determinant_def split: if_splits)
  have a0: "augment m n = Inr (augmented_grid (data m) n)"
    using m by (rule augment_rectangular)
  from interchange_grid [OF is_grid_augmented, of n "data m"] n
  obtain a1 where a1: "interchange n (augmented_grid (data m) n) = Inr a1"
    and g1: "is_grid n (n * 2) a1" by auto
  from eliminate_grid [OF g1]
  obtain a2 where a2: "eliminate n a1 = Inr a2" and g2: "is_grid n (n * 2) a2" by auto
  from normalise_grid [OF g2]
  obtain a3 where a3: "normalise n a2 = Inr a3" and g3: "is_grid n (n * 2) a3" by auto
  have res: "grid n n (\<lambda>i j. at2 a3 i (n + j)) = Inr (tabulate n n (\<lambda>i j. a3 ! i ! (n + j)))"
    by (rule grid_tabulate) (simp add: is_grid_at2 [OF g3])
  have "Inverse m = Inr \<lparr>lines = n, columns = n, data = tabulate n n (\<lambda>i j. a3 ! i ! (n + j))\<rparr>"
    using m det a0 a1 a2 a3 res by (simp add: Inverse_def NewMatrix_tabulate)
  then show ?thesis
    by (simp add: rectangular_tabulate)
qed


section \<open>The inverse of an identity matrix\<close>

lemma f64_bit_cases:
  fixes x y :: float64
  assumes "x = 0 \<or> x = 1" and "y = 0 \<or> y = 1"
  shows "x - y * (0 / 1) = x" and "x / 1 = x" and "\<not> x < 0"
  using assms by (auto simp: f64_unit_arith f64_unit_order)

lemma augmented_identity_nth:
  assumes "i < n" and "j < n * 2"
  shows "augmented_grid (identity_grid n) n ! i ! j
    = (if j = i \<or> j = i + n then 1 else (0::float64))"
  using assms by (auto simp: augmented_grid_def identity_grid_nth)

lemma augmented_identity_bit:
  assumes "i < n" and "j < n * 2"
  shows "augmented_grid (identity_grid n) n ! i ! j = (0::float64)
    \<or> augmented_grid (identity_grid n) n ! i ! j = (1::float64)"
  using assms by (simp add: augmented_identity_nth)

lemma put2_same:
  "i < length d \<Longrightarrow> j < length (d ! i) \<Longrightarrow> put2 d i j (d ! i ! j) = Inr d"
  by simp

lemma interchange_identity:
  "interchange n (augmented_grid (identity_grid n) n)
   = Inr (augmented_grid (identity_grid n) n :: float64 list list)"
  unfolding interchange_def
proof (rule for_each_unchanged)
  fix i
  assume "i \<in> set (rev [1..<n])"
  then have i: "1 \<le> i" "i < n" by simp_all
  let ?J = "augmented_grid (identity_grid n) n :: float64 list list"
  have g: "is_grid n (n * 2) ?J" by (rule is_grid_augmented)
  have a: "at2 ?J (i - 1) 0 = Inr (?J ! (i - 1) ! 0)" and b: "at2 ?J i 0 = Inr (?J ! i ! 0)"
    using i by (simp_all add: is_grid_at2 [OF g])
  have "?J ! i ! 0 = 0"
    using i by (simp add: augmented_identity_nth)
  moreover have "\<not> ?J ! (i - 1) ! 0 < 0"
  proof -
    have "i - 1 < n" "0 < n * 2" using i by simp_all
    then have "?J ! (i - 1) ! 0 = 0 \<or> ?J ! (i - 1) ! 0 = 1"
      by (rule augmented_identity_bit)
    then show ?thesis
      by (auto simp: f64_unit_order)
  qed
  ultimately show "bind (at2 ?J (i - 1) 0) (\<lambda>a. bind (at2 ?J i 0) (\<lambda>b.
            if a < b then
              bind (index ?J i) (\<lambda>tempSlice.
              bind (index ?J (i - 1)) (\<lambda>above.
              bind (put ?J i above) (\<lambda>augmented'.
                put augmented' (i - 1) tempSlice)))
            else Inr ?J)) = Inr ?J"
    using a b by simp
qed

lemma eliminate_identity:
  "eliminate n (augmented_grid (identity_grid n) n)
   = Inr (augmented_grid (identity_grid n) n :: float64 list list)"
  unfolding eliminate_def
proof (rule for_each_unchanged)
  fix i
  assume "i \<in> set [0..<n]"
  then have i: "i < n" by simp
  let ?J = "augmented_grid (identity_grid n) n :: float64 list list"
  have g: "is_grid n (n * 2) ?J" by (rule is_grid_augmented)
  show "for_each [0..<n]
          (\<lambda>j augmented.
             if j \<noteq> i then
               bind (at2 augmented j i) (\<lambda>a. bind (at2 augmented i i) (\<lambda>pivot.
                 let temp = a / pivot in
                 for_each [0..<n * 2]
                   (\<lambda>k augmented. bind (at2 augmented j k) (\<lambda>x.
                      bind (at2 augmented i k) (\<lambda>y. put2 augmented j k (x - y * temp))))
                   augmented))
             else Inr augmented) ?J = Inr ?J"
  proof (rule for_each_unchanged)
    fix j
    assume "j \<in> set [0..<n]"
    then have j: "j < n" by simp
    have inner: "for_each [0..<n * 2]
         (\<lambda>k augmented. bind (at2 augmented j k) (\<lambda>x.
            bind (at2 augmented i k) (\<lambda>y. put2 augmented j k (x - y * (0 / 1))))) ?J = Inr ?J"
    proof (rule for_each_unchanged)
      fix k
      assume "k \<in> set [0..<n * 2]"
      then have k: "k < n * 2" by simp
      have "?J ! j ! k - ?J ! i ! k * (0 / 1) = ?J ! j ! k"
        using augmented_identity_bit [OF j k] augmented_identity_bit [OF i k]
        by (rule f64_bit_cases)
      then show "bind (at2 ?J j k) (\<lambda>x. bind (at2 ?J i k) (\<lambda>y. put2 ?J j k (x - y * (0 / 1))))
          = Inr ?J"
        using i j k g by (simp add: is_grid_at2 [OF g] is_grid_put2 [OF g])
    qed
    show "(if j \<noteq> i then
               bind (at2 ?J j i) (\<lambda>a. bind (at2 ?J i i) (\<lambda>pivot.
                 let temp = a / pivot in
                 for_each [0..<n * 2]
                   (\<lambda>k augmented. bind (at2 augmented j k) (\<lambda>x.
                      bind (at2 augmented i k) (\<lambda>y. put2 augmented j k (x - y * temp))))
                   ?J))
             else Inr ?J) = Inr ?J"
    proof (cases "j = i")
      case True
      then show ?thesis by simp
    next
      case False
      have "?J ! j ! i = 0" "?J ! i ! i = 1"
        using i j False by (simp_all add: augmented_identity_nth)
      with False inner show ?thesis
        using i j by (simp add: is_grid_at2 [OF g])
    qed
  qed
qed

lemma normalise_identity:
  "normalise n (augmented_grid (identity_grid n) n)
   = Inr (augmented_grid (identity_grid n) n :: float64 list list)"
  unfolding normalise_def
proof (rule for_each_unchanged)
  fix i
  assume "i \<in> set [0..<n]"
  then have i: "i < n" by simp
  let ?J = "augmented_grid (identity_grid n) n :: float64 list list"
  have g: "is_grid n (n * 2) ?J" by (rule is_grid_augmented)
  have inner: "for_each [0..<n * 2]
      (\<lambda>j augmented. bind (at2 augmented i j) (\<lambda>x. put2 augmented i j (x / 1))) ?J = Inr ?J"
  proof (rule for_each_unchanged)
    fix j
    assume "j \<in> set [0..<n * 2]"
    then have j: "j < n * 2" by simp
    have "?J ! i ! j / 1 = ?J ! i ! j"
      using augmented_identity_bit [OF i j] augmented_identity_bit [OF i j]
      by (rule f64_bit_cases)
    then show "bind (at2 ?J i j) (\<lambda>x. put2 ?J i j (x / 1)) = Inr ?J"
      using i j by (simp add: is_grid_at2 [OF g] is_grid_put2 [OF g])
  qed
  have "?J ! i ! i = 1"
    using i by (simp add: augmented_identity_nth)
  with inner show "bind (at2 ?J i i) (\<lambda>temp.
          for_each [0..<n * 2]
            (\<lambda>j augmented. bind (at2 augmented i j) (\<lambda>x. put2 augmented i j (x / temp))) ?J)
        = Inr ?J"
    using i by (simp add: is_grid_at2 [OF g])
qed

lemma Inverse_identity_grid:
  assumes "1 \<le> n"
  shows "Inverse \<lparr>lines = n, columns = n, data = identity_grid n :: float64 list list\<rparr>
    = Inr \<lparr>lines = n, columns = n, data = identity_grid n\<rparr>"
proof -
  let ?I = "\<lparr>lines = n, columns = n, data = identity_grid n :: float64 list list\<rparr>"
  let ?J = "augmented_grid (identity_grid n) n :: float64 list list"
  have g: "is_grid n (n * 2) ?J" by (rule is_grid_augmented)
  have det: "Determinant ?I = Inr 1"
    using assms by (rule Determinant_identity_grid)
  have aug: "augment ?I n = Inr ?J"
    using augment_rectangular [OF rectangular_identity, of n n] by simp
  have "grid n n (\<lambda>i j. at2 ?J i (n + j)) = Inr (tabulate n n (\<lambda>i j. ?J ! i ! (n + j)))"
    by (rule grid_tabulate) (simp add: is_grid_at2 [OF g])
  moreover have "tabulate n n (\<lambda>i j. ?J ! i ! (n + j)) = identity_grid n"
  proof (rule grid_eqI [where r = n and c = n])
    show "is_grid n n (tabulate n n (\<lambda>i j. ?J ! i ! (n + j)))"
      by (simp add: is_grid_def tabulate_def list_all_length)
    show "is_grid n n (identity_grid n :: float64 list list)"
      by (rule is_grid_identity)
  next
    fix i j
    assume "i < n" "j < n"
    then show "tabulate n n (\<lambda>i j. ?J ! i ! (n + j)) ! i ! j = identity_grid n ! i ! j"
      by (auto simp: augmented_identity_nth identity_grid_nth)
  qed
  moreover have "NewMatrix (identity_grid n :: float64 list list) = ?I"
    using assms by (simp add: NewMatrix_grid [OF is_grid_identity])
  ultimately show ?thesis
    using det aug
    by (simp add: Inverse_def f64_unit_order interchange_identity eliminate_identity
        normalise_identity)
qed

lemma Equals_identity:
  "Equals \<lparr>lines = n, columns = n, data = identity_grid n :: float64 list list\<rparr>
     \<lparr>lines = n, columns = n, data = identity_grid n\<rparr> = Inr True"
proof -
  let ?I = "\<lparr>lines = n, columns = n, data = identity_grid n :: float64 list list\<rparr>"
  have "go_eq (0::float64) 0" "go_eq (1::float64) 1"
    by code_simp+
  then have same: "\<forall>i<n. \<forall>j<n. go_eq (identity_grid n ! i ! j :: float64) (identity_grid n ! i ! j)"
    by (simp add: identity_grid_nth)
  have r: "rectangular ?I"
    by (rule rectangular_identity)
  have "Equals ?I ?I = Inr (\<forall>i<lines ?I. \<forall>j<columns ?I. go_eq (data ?I ! i ! j) (data ?I ! i ! j))"
    using r r by (rule Equals_rectangular) simp_all
  with same show ?thesis by simp
qed

section \<open>The decomposition in exact arithmetic\<close>

lemma go_eq_real [simp]: "go_eq (x::real) y = (x = y)"
  by (auto simp: go_eq_def)

lemma fold_add_sum:
  fixes f :: "nat \<Rightarrow> real"
  shows "fold (\<lambda>j s. s + f j) [0..<n] 0 = sum f {0..<n}"
  by (induction n) simp_all

lemma dot_sum_real:
  fixes l u :: "real list list"
  shows "dot_sum l u r c n = (\<Sum>j = 0..<n. l ! r ! j * u ! j ! c)"
  unfolding dot_sum_def by (rule fold_add_sum)

lemma sum_split3:
  fixes f :: "nat \<Rightarrow> real"
  assumes "k < n"
  shows "sum f {0..<n} = sum f {0..<k} + f k + sum f {Suc k..<n}"
proof -
  have "sum f {0..<n} = sum f {0..<k} + sum f {k..<n}"
    using assms by (simp add: sum.atLeastLessThan_concat)
  also have "sum f {k..<n} = f k + sum f {Suc k..<n}"
    using assms by (simp add: sum.atLeast_Suc_lessThan)
  finally show ?thesis by simp
qed

lemma doolittle_real_lower:
  fixes a l u :: "real list list"
  assumes d: "doolittle a n n l u"
  shows "i < n \<Longrightarrow> l ! i ! i = 1" and "k < i \<Longrightarrow> i < n \<Longrightarrow> l ! k ! i = 0"
proof -
  from d have ueq: "\<And>r k. r < n \<Longrightarrow> k < n \<Longrightarrow> upper_eq a l u r k"
    and leq: "\<And>c k. c < n \<Longrightarrow> k < n \<Longrightarrow> lower_eq a l u k c"
    by (simp_all add: doolittle_def)
  show diag: "l ! i ! i = 1" if "i < n" for i
    using leq [OF that that] by (simp add: lower_eq_def)
  have "\<forall>k<i. l ! k ! i = 0" if "i < n" for i
    using that
  proof (induction i rule: less_induct)
    case (less i)
    show ?case
    proof (intro allI impI)
      fix k assume k: "k < i"
      then have kn: "k < n" using less.prems by simp
      have zero: "l ! k ! j * u ! j ! i = 0" if "j \<in> {Suc k..<i}" for j
        using less.IH [of j] that less.prems by simp
      have "(\<Sum>j = 0..<i. l ! k ! j * u ! j ! i)
          = (\<Sum>j = 0..<k. l ! k ! j * u ! j ! i) + l ! k ! k * u ! k ! i
            + (\<Sum>j = Suc k..<i. l ! k ! j * u ! j ! i)"
        using k by (rule sum_split3)
      also have "(\<Sum>j = Suc k..<i. l ! k ! j * u ! j ! i) = 0"
        using zero by (rule sum.neutral [OF ballI])
      finally have s: "dot_sum l u k i i = dot_sum l u k i k + u ! k ! i"
        using diag [OF kn] by (simp add: dot_sum_real)
      have "u ! k ! i = a ! k ! i - dot_sum l u k i k"
        using ueq [OF kn less.prems] by (simp add: upper_eq_def)
      with s have "a ! k ! i - dot_sum l u k i i = 0" by simp
      then show "l ! k ! i = 0"
        using leq [OF less.prems kn] k by (simp add: lower_eq_def)
    qed
  qed
  then show "l ! k ! i = 0" if "k < i" "i < n"
    using that by simp
qed

lemma doolittle_real_upper:
  fixes a l u :: "real list list"
  assumes d: "doolittle a n n l u"
    and pivots: "\<And>c. c < m \<Longrightarrow> u ! c ! c \<noteq> 0"
  shows "c < i \<Longrightarrow> i < n \<Longrightarrow> c < m \<Longrightarrow> u ! i ! c = 0"
proof -
  from d have ueq: "\<And>r k. r < n \<Longrightarrow> k < n \<Longrightarrow> upper_eq a l u r k"
    and leq: "\<And>c k. c < n \<Longrightarrow> k < n \<Longrightarrow> lower_eq a l u k c"
    by (simp_all add: doolittle_def)
  have "\<forall>c<i. c < m \<longrightarrow> u ! i ! c = 0" if "i < n" for i
    using that
  proof (induction i rule: less_induct)
    case (less i)
    show ?case
    proof (intro allI impI)
      fix c assume c: "c < i" and cm: "c < m"
      then have cn: "c < n" using less.prems by simp
      have zero: "l ! i ! j * u ! j ! c = 0" if "j \<in> {Suc c..<i}" for j
        using less.IH [of j] that less.prems cm by simp
      have "(\<Sum>j = 0..<i. l ! i ! j * u ! j ! c)
          = (\<Sum>j = 0..<c. l ! i ! j * u ! j ! c) + l ! i ! c * u ! c ! c
            + (\<Sum>j = Suc c..<i. l ! i ! j * u ! j ! c)"
        using c by (rule sum_split3)
      also have "(\<Sum>j = Suc c..<i. l ! i ! j * u ! j ! c) = 0"
        using zero by (rule sum.neutral [OF ballI])
      finally have s: "dot_sum l u i c i = dot_sum l u i c c + l ! i ! c * u ! c ! c"
        by (simp add: dot_sum_real)
      have "l ! i ! c = (a ! i ! c - dot_sum l u i c c) / u ! c ! c"
        using leq [OF cn less.prems] c pivots [OF cm] by (simp add: lower_eq_def)
      then have "l ! i ! c * u ! c ! c = a ! i ! c - dot_sum l u i c c"
        using pivots [OF cm] by simp
      with s have "a ! i ! c - dot_sum l u i c i = 0" by simp
      then show "u ! i ! c = 0"
        using ueq [OF less.prems cn] by (simp add: upper_eq_def)
    qed
  qed
  then show "u ! i ! c = 0" if "c < i" "i < n" "c < m"
    using that by simp
qed

lemma doolittle_real_product:
  fixes a l u :: "real list list"
  assumes d: "doolittle a n n l u"
    and pivots: "\<And>c. c < m \<Longrightarrow> u ! c ! c \<noteq> 0"
    and i: "i < n" and k: "k < n" and km: "k < i \<Longrightarrow> k < m"
  shows "dot_sum l u i k n = a ! i ! k"
proof -
  from d have ueq: "\<And>r k. r < n \<Longrightarrow> k < n \<Longrightarrow> upper_eq a l u r k"
    and leq: "\<And>c k. c < n \<Longrightarrow> k < n \<Longrightarrow> lower_eq a l u k c"
    by (simp_all add: doolittle_def)
  show ?thesis
  proof (cases "i \<le> k")
    case True
    have zero: "l ! i ! j * u ! j ! k = 0" if "j \<in> {Suc i..<n}" for j
      using doolittle_real_lower(2) [OF d, of i j] that by simp
    have "(\<Sum>j = 0..<n. l ! i ! j * u ! j ! k)
        = (\<Sum>j = 0..<i. l ! i ! j * u ! j ! k) + l ! i ! i * u ! i ! k
          + (\<Sum>j = Suc i..<n. l ! i ! j * u ! j ! k)"
      using i by (rule sum_split3)
    also have "(\<Sum>j = Suc i..<n. l ! i ! j * u ! j ! k) = 0"
      using zero by (rule sum.neutral [OF ballI])
    finally have "dot_sum l u i k n = dot_sum l u i k i + u ! i ! k"
      using doolittle_real_lower(1) [OF d i] by (simp add: dot_sum_real)
    then show ?thesis
      using ueq [OF i k] by (simp add: upper_eq_def)
  next
    case False
    then have ki: "k < i" by simp
    then have kmm: "k < m" by (rule km)
    have "u ! j ! k = 0" if "k < j" "j < n" for j
      using d pivots that kmm by (rule doolittle_real_upper)
    then have zero: "l ! i ! j * u ! j ! k = 0" if "j \<in> {Suc k..<n}" for j
      using that by simp
    have "(\<Sum>j = 0..<n. l ! i ! j * u ! j ! k)
        = (\<Sum>j = 0..<k. l ! i ! j * u ! j ! k) + l ! i ! k * u ! k ! k
          + (\<Sum>j = Suc k..<n. l ! i ! j * u ! j ! k)"
      using k by (rule sum_split3)
    also have "(\<Sum>j = Suc k..<n. l ! i ! j * u ! j ! k) = 0"
      using zero by (rule sum.neutral [OF ballI])
    finally have s: "dot_sum l u i k n = dot_sum l u i k k + l ! i ! k * u ! k ! k"
      by (simp add: dot_sum_real)
    have "l ! i ! k = (a ! i ! k - dot_sum l u i k k) / u ! k ! k"
      using leq [OF k i] ki pivots [OF kmm] by (simp add: lower_eq_def)
    then have "l ! i ! k * u ! k ! k = a ! i ! k - dot_sum l u i k k"
      using pivots [OF kmm] by simp
    with s show ?thesis by simp
  qed
qed

lemma Product_grids:
  fixes l u :: "('a::{zero,plus,times}) list list"
  assumes l: "is_grid n n l" and u: "is_grid n n u"
  shows "Product \<lparr>lines = n, columns = n, data = l\<rparr> \<lparr>lines = n, columns = n, data = u\<rparr>
    = Inr \<lparr>lines = n, columns = n, data = tabulate n n (\<lambda>i j. dot_sum l u i j n)\<rparr>"
proof -
  have "grid n n (\<lambda>i j. for_each [0..<n]
            (\<lambda>k acc. bind (at2 l i k) (\<lambda>a. bind (at2 u k j) (\<lambda>b. Inr (acc + a * b)))) 0)
      = Inr (tabulate n n (\<lambda>i j. dot_sum l u i j n))"
  proof (rule grid_tabulate)
    fix i j
    assume "i < n" "j < n"
    then show "for_each [0..<n]
            (\<lambda>k acc. bind (at2 l i k) (\<lambda>a. bind (at2 u k j) (\<lambda>b. Inr (acc + a * b)))) 0
        = Inr (dot_sum l u i j n)"
      using dot_in_range [OF l u, of i j n] by (simp add: dot_def)
  qed
  then show ?thesis
    by (simp add: Product_def Lines_def Columns_def NewMatrix_tabulate)
qed


section \<open>What the operations write\<close>





lemma keeps_fewer: "keeps h0 (d # F) h \<Longrightarrow> keeps h0 F h"
  by (simp add: keeps_def)




































section \<open>The determinant by expansion along the last row\<close>

lemma length_del: "j < length xs \<Longrightarrow> length (del j xs) = length xs - 1"
  by (simp add: del_def)

lemma nth_del:
  assumes "i < length xs - 1"
  shows "del j xs ! i = (if i < j then xs ! i else xs ! Suc i)"
proof (cases "i < j")
  case True
  then have "i < length (take j xs)" using assms by simp
  then have "del j xs ! i = take j xs ! i"
    unfolding del_def by (simp only: nth_append if_True)
  with True show ?thesis by simp
next
  case False
  then have len: "length (take j xs) = j" using assms by simp
  have "del j xs ! i = drop (Suc j) xs ! (i - j)"
    unfolding del_def using False len by (simp add: nth_append)
  also have "\<dots> = xs ! Suc i"
    using False assms by simp
  finally show ?thesis using False by simp
qed

lemma del_last: "length xs = Suc k \<Longrightarrow> del k xs = take k xs"
  by (simp add: del_def)

lemma del_beyond: "length xs \<le> j \<Longrightarrow> del j xs = xs"
  by (simp add: del_def)

lemma del_del:
  assumes ij: "i < j"
  shows "del i (del j xs) = del (j - 1) (del i xs)"
proof (cases "j < length xs")
  case False
  then have "del j xs = xs" by (simp add: del_beyond)
  moreover have "del (j - 1) (del i xs) = del i xs"
  proof (cases "i < length xs")
    case True
    then show ?thesis using False by (intro del_beyond) (simp add: length_del)
  next
    case False
    then show ?thesis using ij by (simp add: del_beyond)
  qed
  ultimately show ?thesis by simp
next
  case True
  have li: "length (del i xs) = length xs - 1"
    using True ij by (simp add: length_del)
  have lj: "length (del j xs) = length xs - 1"
    using True by (simp add: length_del)
  show ?thesis
  proof (rule nth_equalityI)
    show "length (del i (del j xs)) = length (del (j - 1) (del i xs))"
      using True ij li lj by (simp add: length_del)
  next
    fix n
    assume "n < length (del i (del j xs))"
    then have n: "n < length xs - 2"
      using True ij lj by (simp add: length_del)
    have a: "del i (del j xs) ! n = (if n < i then del j xs ! n else del j xs ! Suc n)"
      using n lj by (intro nth_del) simp
    have b: "del (j - 1) (del i xs) ! n
        = (if n < j - 1 then del i xs ! n else del i xs ! Suc n)"
      using n li by (intro nth_del) simp
    have c: "del j xs ! m = (if m < j then xs ! m else xs ! Suc m)" if "m \<le> Suc n" for m
      using that n by (intro nth_del) simp
    have d: "del i xs ! m = (if m < i then xs ! m else xs ! Suc m)" if "m \<le> Suc n" for m
      using that n by (intro nth_del) simp
    show "del i (del j xs) ! n = del (j - 1) (del i xs) ! n"
      unfolding a b using ij by (auto simp: c d)
  qed
qed

lemma laplace_det_Nil: "laplace_det [] = 1"
  by (subst laplace_det.simps) simp

lemma laplace_det_snoc:
  fixes x :: "('a::comm_ring_1) list"
  shows "laplace_det (R @ [x])
    = (\<Sum>j = 0..<Suc (length R). (- 1) ^ (length R + j) * x ! j * laplace_det (map (del j) R))"
proof -
  have "laplace_det (R @ [x])
      = (\<Sum>j \<leftarrow> [0..<Suc (length R)].
            (- 1) ^ (length R + j) * x ! j * laplace_det (map (del j) R))"
    by (subst laplace_det.simps) simp
  also have "\<dots> = (\<Sum>j = 0..<Suc (length R). (- 1) ^ (length R + j) * x ! j * laplace_det (map (del j) R))"
    by (simp only: interv_sum_list_conv_sum_set_nat set_upt)
  finally show ?thesis .
qed

lemma laplace_det_order_1: "laplace_det [[a]] = a"
  by (simp add: laplace_det.simps [of "[[a]]"] laplace_det.simps [of "[]"])

lemma laplace_det_order_2: "laplace_det [[a, b], [c, d]] = a * d - b * c"
  using laplace_det_snoc [of "[[a, b]]" "[c, d]"]
  by (simp add: del_def laplace_det_order_1)

lemma laplace_det_two_rows:
  fixes a b :: "('a::comm_ring_1) list"
  shows "laplace_det (R @ [a, b])
    = sum (pair_term R a b) ({0..<Suc (Suc (length R))} \<times> {0..<Suc (length R)})"
proof -
  have "laplace_det (R @ [a, b]) = laplace_det ((R @ [a]) @ [b])" by simp
  also have "\<dots> = (\<Sum>j = 0..<Suc (Suc (length R)).
      (- 1) ^ (Suc (length R) + j) * b ! j * laplace_det (map (del j) R @ [del j a]))"
    by (subst laplace_det_snoc) simp
  also have "\<dots> = (\<Sum>j = 0..<Suc (Suc (length R)). \<Sum>i = 0..<Suc (length R).
      pair_term R a b (j, i))"
  proof (rule sum.cong [OF refl])
    fix j
    have "laplace_det (map (del j) R @ [del j a])
      = (\<Sum>i = 0..<Suc (length R). (- 1) ^ (length R + i) * del j a ! i
           * laplace_det (map (del i) (map (del j) R)))"
      using laplace_det_snoc [of "map (del j) R" "del j a"] by (simp del: sum.op_ivl_Suc map_map)
    then show "(- 1) ^ (Suc (length R) + j) * b ! j * laplace_det (map (del j) R @ [del j a])
      = (\<Sum>i = 0..<Suc (length R). pair_term R a b (j, i))"
      by (simp add: pair_term_def sum_distrib_left del: sum.op_ivl_Suc map_map)
  qed
  also have "\<dots> = sum (pair_term R a b) ({0..<Suc (Suc (length R))} \<times> {0..<Suc (length R)})"
    by (simp add: sum.cartesian_product del: sum.op_ivl_Suc)
  finally show ?thesis .
qed

lemma pair_swap_in:
  assumes "p \<in> {0..<Suc (Suc k)} \<times> {0..<Suc k}"
  shows "pair_swap p \<in> {0..<Suc (Suc k)} \<times> {0..<Suc k}"
  using assms by (auto simp: pair_swap_def split: prod.splits)

lemma pair_swap_swap: "pair_swap (pair_swap p) = p"
  by (cases p) (auto simp: pair_swap_def)

lemma pair_term_swap:
  fixes a b :: "('a::comm_ring_1) list"
  assumes p: "p \<in> {0..<Suc (Suc (length R))} \<times> {0..<Suc (length R)}"
    and a: "length a = Suc (Suc (length R))" and b: "length b = Suc (Suc (length R))"
  shows "pair_term R b a (pair_swap p) = - pair_term R a b p"
proof -
  obtain j i where ji: "p = (j, i)" by (cases p)
  with p have j: "j < Suc (Suc (length R))" and i: "i < Suc (length R)" by auto
  show ?thesis
  proof (cases "i < j")
    case True
    then obtain j' where j': "j = Suc j'" by (cases j) auto
    have dels: "map (del j') (map (del i) R) = map (del i) (map (del j) R)"
    proof -
      have "del j' (del i x) = del i (del j x)" for x :: "'a list"
        using del_del [OF True, of x] by (simp add: j')
      then show ?thesis by simp
    qed
    have "del i b ! j' = b ! j"
      using True i j b by (simp add: nth_del j')
    moreover have "del j a ! i = a ! i"
      using True i a by (simp add: nth_del)
    ultimately show ?thesis
      using True dels by (simp add: ji pair_term_def pair_swap_def j' power_add mult_ac del: map_map)
  next
    case False
    have dels: "map (del j) (map (del (Suc i)) R) = map (del i) (map (del j) R)"
    proof -
      have "del j (del (Suc i) x) = del i (del j x)" for x :: "'a list"
        using del_del [of j "Suc i" x] False by simp
      then show ?thesis by simp
    qed
    have "del (Suc i) b ! j = b ! j"
      using False i j b by (simp add: nth_del)
    moreover have "del j a ! i = a ! Suc i"
      using False i a by (simp add: nth_del)
    ultimately show ?thesis
      using False dels by (simp add: ji pair_term_def pair_swap_def power_add mult_ac del: map_map)
  qed
qed

lemma laplace_det_swap_last:
  fixes a b :: "('a::comm_ring_1) list"
  assumes a: "length a = Suc (Suc (length R))" and b: "length b = Suc (Suc (length R))"
  shows "laplace_det (R @ [b, a]) = - laplace_det (R @ [a, b])"
proof -
  let ?S = "{0..<Suc (Suc (length R))} \<times> {0..<Suc (length R)}"
  have "sum (pair_term R b a) ?S = sum (\<lambda>p. pair_term R b a (pair_swap p)) ?S"
    by (rule sum.reindex_bij_witness [where i = pair_swap and j = pair_swap])
      (simp_all add: pair_swap_swap pair_swap_in)
  also have "\<dots> = sum (\<lambda>p. - pair_term R a b p) ?S"
    by (rule sum.cong) (simp_all add: pair_term_swap [OF _ a b])
  also have "\<dots> = - sum (pair_term R a b) ?S"
    by (simp add: sum_negf)
  finally show ?thesis
    by (simp add: laplace_det_two_rows)
qed

lemma laplace_det_repeated_row:
  fixes x :: "real list"
  assumes "\<forall>y\<in>set R2. length y = length x"
    and "length x = Suc (Suc (length R1 + length R2))"
  shows "laplace_det (R1 @ x # R2 @ [x]) = 0"
  using assms
proof (induction k \<equiv> "length R2" arbitrary: R1 x R2)
  case 0
  then have "laplace_det (R1 @ [x, x]) = - laplace_det (R1 @ [x, x])"
    by (intro laplace_det_swap_last) simp_all
  then show ?case using 0 by simp
next
  case (Suc k)
  then obtain y R3 where R2: "R2 = R3 @ [y]"
    by (cases R2 rule: rev_cases) auto
  let ?R = "R1 @ x # R3"
  have len: "length x = Suc (Suc (length ?R))" "length y = Suc (Suc (length ?R))"
    using Suc.prems by (simp_all add: R2)
  have "laplace_det (?R @ [y, x]) = - laplace_det (?R @ [x, y])"
    using len by (intro laplace_det_swap_last)
  moreover have "laplace_det ((?R @ [x]) @ [y]) = 0"
  proof (subst laplace_det_snoc, rule sum.neutral, rule ballI)
    fix j assume "j \<in> {0..<Suc (length (?R @ [x]))}"
    then have j: "j < length x" using len by simp
    have "laplace_det (map (del j) R1 @ del j x # map (del j) R3 @ [del j x]) = 0"
    proof (rule Suc.hyps(1))
      show "k = length (map (del j) R3)"
        using Suc.hyps(2) by (simp add: R2)
      show "\<forall>y\<in>set (map (del j) R3). length y = length (del j x)"
        using Suc.prems(1) j by (simp add: length_del R2)
      show "length (del j x) = Suc (Suc (length (map (del j) R1) + length (map (del j) R3)))"
        using Suc.prems(2) j by (simp add: length_del R2)
    qed
    then show "(- 1) ^ (length (?R @ [x]) + j) * y ! j * laplace_det (map (del j) (?R @ [x])) = 0"
      by simp
  qed
  ultimately show ?case by (simp add: R2)
qed

lemma laplace_det_alien:
  fixes R :: "real list list"
  assumes t: "t < length R" and len: "\<forall>y\<in>set R. length y = Suc (length R)"
  shows "laplace_det (R @ [R ! t]) = 0"
proof -
  have R: "R = take t R @ R ! t # drop (Suc t) R"
    using t by (simp add: id_take_nth_drop)
  have "laplace_det (take t R @ R ! t # drop (Suc t) R @ [R ! t]) = 0"
  proof (rule laplace_det_repeated_row)
    show "\<forall>y\<in>set (drop (Suc t) R). length y = length (R ! t)"
      using len t by (auto dest: in_set_dropD)
    show "length (R ! t) = Suc (Suc (length (take t R) + length (drop (Suc t) R)))"
      using len t by auto
  qed
  then show ?thesis using R by (metis append.assoc append_Cons)
qed

lemma leading_Suc:
  assumes "k < length a"
  shows "leading (Suc k) a = map (take (Suc k)) (take k a) @ [take (Suc k) (a ! k)]"
  using assms by (simp add: leading_def take_Suc_conv_app_nth)

lemma leading_cofactor:
  assumes a: "is_grid n n a" and k: "k < n"
  shows "map (del k) (map (take (Suc k)) (take k a)) = leading k a"
proof -
  have "del k (take (Suc k) row) = take k row" if "row \<in> set (take k a)" for row
  proof -
    from that have "row \<in> set a" by (rule in_set_takeD)
    then have "length row = n"
      using a by (simp add: is_grid_def list_all_iff)
    then have "length (take (Suc k) row) = Suc k"
      using k by simp
    then have "del k (take (Suc k) row) = take k (take (Suc k) row)"
      by (rule del_last)
    then show ?thesis by simp
  qed
  then show ?thesis
    by (simp add: leading_def)
qed

lemma expansion_linear:
  fixes c :: "nat \<Rightarrow> real"
  shows "(\<Sum>j = 0..<m. (f j - (\<Sum>s = 0..<t. g s * h s j)) * c j)
    = (\<Sum>j = 0..<m. f j * c j) - (\<Sum>s = 0..<t. g s * (\<Sum>j = 0..<m. h s j * c j))"
proof -
  have "(\<Sum>j = 0..<m. (\<Sum>s = 0..<t. g s * h s j) * c j)
      = (\<Sum>j = 0..<m. \<Sum>s = 0..<t. g s * (h s j * c j))"
    by (simp add: sum_distrib_right mult.assoc)
  also have "\<dots> = (\<Sum>s = 0..<t. \<Sum>j = 0..<m. g s * (h s j * c j))"
    by (rule sum.swap)
  also have "\<dots> = (\<Sum>s = 0..<t. g s * (\<Sum>j = 0..<m. h s j * c j))"
    by (simp add: sum_distrib_left)
  finally show ?thesis
    by (simp add: left_diff_distrib sum_subtractf)
qed

lemma leading_step:
  fixes a l u :: "real list list"
  assumes a: "is_grid n n a" and d: "doolittle a n n l u" and k: "k < n"
    and pivots: "\<And>c. c < k \<Longrightarrow> u ! c ! c \<noteq> 0"
  shows "laplace_det (leading (Suc k) a) = u ! k ! k * laplace_det (leading k a)"
proof -
  define R where "R = map (take (Suc k)) (take k a)"
  define c where "c j = (- 1) ^ (k + j) * laplace_det (map (del j) R)" for j
  define E where "E v = (\<Sum>j = 0..<Suc k. v j * c j)" for v :: "nat \<Rightarrow> real"
  have lenR: "length R = k"
    using a k by (simp add: R_def is_grid_length)
  have row: "length (a ! t) = n" if "t < n" for t
    using a that by (rule is_grid_row)
  have Rt: "R ! t = take (Suc k) (a ! t)" if "t < k" for t
    using that a k by (simp add: R_def is_grid_length)
  have rows: "\<forall>y\<in>set R. length y = Suc (length R)"
  proof
    fix y assume "y \<in> set R"
    then obtain t where t: "t < k" and y: "y = R ! t"
      using lenR by (auto simp: in_set_conv_nth)
    show "length y = Suc (length R)"
      using t k row [of t] by (simp add: y Rt lenR)
  qed
  have expand: "laplace_det (R @ [x]) = E (\<lambda>j. x ! j)" for x
    using laplace_det_snoc [of R x]
    by (simp add: E_def c_def lenR mult_ac del: sum.op_ivl_Suc)
  have Econg: "E v = E w" if "\<And>j. j \<le> k \<Longrightarrow> v j = w j" for v w
    unfolding E_def by (rule sum.cong) (simp_all add: that)
  have Ea: "E (\<lambda>j. a ! t ! j) = 0" if t: "t < k" for t
  proof -
    have "laplace_det (R @ [R ! t]) = 0"
      using rows t by (intro laplace_det_alien) (simp_all add: lenR)
    then have "E (\<lambda>j. take (Suc k) (a ! t) ! j) = 0"
      by (simp add: expand Rt [OF t])
    moreover have "E (\<lambda>j. take (Suc k) (a ! t) ! j) = E (\<lambda>j. a ! t ! j)"
      by (rule Econg) simp
    ultimately show ?thesis by simp
  qed
  have ueq: "u ! t ! j = a ! t ! j - (\<Sum>s = 0..<t. l ! t ! s * u ! s ! j)" if "t < n" "j < n" for t j
    using d that by (simp add: doolittle_def upper_eq_def dot_sum_real)
  have Eu: "E (\<lambda>j. u ! t ! j)
      = E (\<lambda>j. a ! t ! j) - (\<Sum>s = 0..<t. l ! t ! s * E (\<lambda>j. u ! s ! j))" if t: "t < n" for t
  proof -
    have "E (\<lambda>j. u ! t ! j) = E (\<lambda>j. a ! t ! j - (\<Sum>s = 0..<t. l ! t ! s * u ! s ! j))"
      using k t by (intro Econg ueq) simp_all
    then show ?thesis
      unfolding E_def by (simp only: expansion_linear)
  qed
  have W: "E (\<lambda>j. u ! t ! j) = 0" if "t < k" for t
    using that
  proof (induction t rule: less_induct)
    case (less t)
    have "(\<Sum>s = 0..<t. l ! t ! s * E (\<lambda>j. u ! s ! j)) = 0"
      using less by (intro sum.neutral) simp
    then show ?case
      using Eu [of t] Ea [OF less.prems] less.prems k by simp
  qed
  have "(\<Sum>s = 0..<k. l ! k ! s * E (\<lambda>j. u ! s ! j)) = 0"
    using W by (intro sum.neutral) simp
  then have "E (\<lambda>j. a ! k ! j) = E (\<lambda>j. u ! k ! j)"
    using Eu [OF k] by simp
  also have "\<dots> = u ! k ! k * c k"
  proof -
    have "u ! k ! j = 0" if "j < k" for j
      using d pivots that k that by (rule doolittle_real_upper)
    then have "(\<Sum>j = 0..<k. u ! k ! j * c j) = 0"
      by (intro sum.neutral) simp
    then show ?thesis by (simp add: E_def)
  qed
  also have "c k = laplace_det (leading k a)"
    using leading_cofactor [OF a k] by (simp add: c_def R_def del: map_map)
  finally have "E (\<lambda>j. a ! k ! j) = u ! k ! k * laplace_det (leading k a)" .
  moreover have "laplace_det (leading (Suc k) a) = E (\<lambda>j. take (Suc k) (a ! k) ! j)"
    using a k by (simp add: leading_Suc is_grid_length expand R_def [symmetric])
  moreover have "E (\<lambda>j. take (Suc k) (a ! k) ! j) = E (\<lambda>j. a ! k ! j)"
    by (rule Econg) simp
  ultimately show ?thesis by simp
qed

lemma minors_pivots:
  fixes a l u :: "real list list"
  assumes a: "is_grid n n a" and d: "doolittle a n n l u"
    and minors: "leading_minors_nonzero a"
  shows "k < n \<Longrightarrow> u ! k ! k \<noteq> 0"
proof (induction k rule: less_induct)
  case (less k)
  have "laplace_det (leading (Suc k) a) = u ! k ! k * laplace_det (leading k a)"
    using a d less.prems
  proof (rule leading_step)
    fix c assume "c < k"
    then show "u ! c ! c \<noteq> 0"
      using less by simp
  qed
  moreover have "laplace_det (leading (Suc k) a) \<noteq> 0"
  proof -
    have "Suc k \<in> set [1..<Suc (length a)]"
      using less.prems is_grid_length [OF a] by auto
    with minors show ?thesis
      unfolding leading_minors_nonzero_def list_all_iff by blast
  qed
  ultimately show ?case by auto
qed

text \<open>
  The loops of \<open>LU\<close> taken over the real numbers, where no operation rounds: for a
  square matrix whose leading principal minors are not zero, they compute the
  decomposition, and every entry that they store below the diagonal of \<open>U\<close> and above the
  diagonal of \<open>L\<close> is 0.
\<close>

lemma LU_exact:
  fixes A :: "real Matrix"
  assumes A: "rectangular A" "lines A = n" "columns A = n"
    and minors: "leading_minors_nonzero (data A)"
  shows "\<exists>L U. LU A = Inr (L, U)
      \<and> rectangular L \<and> lines L = n \<and> columns L = n
      \<and> rectangular U \<and> lines U = n \<and> columns U = n
      \<and> unit_lower_triangular L \<and> upper_triangular U
      \<and> (\<exists>P. Product L U = Inr P \<and> Equals P A = Inr True)"
proof -
  from LU_doolittle [OF A] obtain l u
    where lu: "LU A = Inr (\<lparr>lines = n, columns = n, data = l\<rparr>, \<lparr>lines = n, columns = n, data = u\<rparr>)"
      and d: "doolittle (data A) n n l u"
    by blast
  let ?L = "\<lparr>lines = n, columns = n, data = l\<rparr>" and ?U = "\<lparr>lines = n, columns = n, data = u\<rparr>"
  from d have l: "is_grid n n l" and u: "is_grid n n u"
    by (simp_all add: doolittle_def)
  have a: "is_grid n n (data A)"
    using rectangular_is_grid [OF A(1)] by (simp add: A)
  have rL: "rectangular ?L" and rU: "rectangular ?U"
    using l u by (simp_all add: rectangular_def is_grid_def)
  have low: "unit_lower_triangular ?L"
    using doolittle_real_lower [OF d] by (simp add: unit_lower_triangular_def)
  have pivots: "u ! c ! c \<noteq> 0" if "c < n" for c
    using a d minors that by (rule minors_pivots)
  have up: "upper_triangular ?U"
    unfolding upper_triangular_def
  proof (intro allI impI)
    fix i j
    assume i: "i < lines ?U" and j: "j < i"
    then have "i < n" "j < n" by simp_all
    with d pivots j have "u ! i ! j = 0"
      by (rule doolittle_real_upper)
    then show "data ?U ! i ! j = 0" by simp
  qed
  let ?P = "\<lparr>lines = n, columns = n, data = tabulate n n (\<lambda>i j. dot_sum l u i j n)\<rparr>"
  have p: "Product ?L ?U = Inr ?P"
    using l u by (rule Product_grids)
  have rP: "rectangular ?P"
    by (simp add: rectangular_tabulate)
  have "Equals ?P A
      = Inr (\<forall>i<lines ?P. \<forall>j<columns ?P. go_eq (data ?P ! i ! j) (data A ! i ! j))"
    using rP A(1) by (rule Equals_rectangular) (simp_all add: A)
  moreover have "dot_sum l u i j n = data A ! i ! j" if "i < n" "j < n" for i j
    using d pivots that
  proof (rule doolittle_real_product)
    show "j < n" by fact
  qed
  ultimately have "Equals ?P A = Inr True"
    by simp
  with lu rL rU low up p show ?thesis
    by auto
qed

text \<open>
  C4 (as amended). For every \<open>n \<ge> 1\<close>, \<open>NewIdentityMatrix(n)\<close> succeeds and \<open>Determinant\<close>
  of it succeeds and returns exactly 1. (For \<open>n = 0\<close> the matrix is empty and
  \<open>Determinant\<close> returns the error "empty matrix", see \<open>Determinant_identity_0\<close>.)
\<close>

theorem Determinant_identity:
  assumes "1 \<le> n"
  shows "\<exists>I. NewIdentityMatrix n = Inr I \<and> Determinant I = Inr (1::float64)"
proof -
  have n: "n = int (nat n)" and k: "1 \<le> nat n"
    using assms by simp_all
  have "NewIdentityMatrix n
      = Inr \<lparr>lines = nat n, columns = nat n, data = identity_grid (nat n) :: float64 list list\<rparr>"
    using NewIdentityMatrix_nat [of "nat n"] n by simp
  with Determinant_identity_grid [OF k] show ?thesis by simp
qed

theorem Determinant_identity_witness:
  "(1::int) \<le> 3 \<and> (\<exists>I. NewIdentityMatrix 3 = Inr I \<and> Determinant I = Inr (1::float64))"
  using Determinant_identity [of 3] by simp

theorem Determinant_identity_0:
  "bind (NewIdentityMatrix 0) Determinant = (Inl (Err ''empty matrix'') :: error + float64)"
  by (simp add: NewIdentityMatrix_def Determinant_def)

text \<open>
  C3. For every matrix of the data model, \<open>Inverse\<close> returns an error exactly in these
  cases: the error "matrix musts be square" (NotSquare) when the numbers of lines and
  columns differ; the error of \<open>Determinant\<close> when that fails, which for a square matrix
  happens only for the empty matrix ("empty matrix"); and the error "determinant is zero.
  Matrix cannot be inverted" (SingularMatrix) exactly when the computed determinant
  \<open>== 0\<close>. In every other case it returns a matrix (of the same order) and no error; it
  never panics.
\<close>

theorem Inverse_error_cases:
  assumes "rectangular m"
  shows "(lines m \<noteq> columns m \<longrightarrow> Inverse m = Inl (Err ''matrix musts be square''))
    \<and> (lines m = columns m \<longrightarrow>
         (case Determinant m of
            Inl e \<Rightarrow> lines m = 0 \<and> e = Err ''empty matrix'' \<and> Inverse m = Inl e
          | Inr det \<Rightarrow> lines m \<noteq> 0
              \<and> (if go_eq det 0
                  then Inverse m = Inl (Err ''determinant is zero. Matrix cannot be inverted'')
                  else \<exists>R. Inverse m = Inr R \<and> rectangular R
                         \<and> lines R = lines m \<and> columns R = columns m)))"
proof (intro conjI impI)
  assume "lines m \<noteq> columns m"
  then show "Inverse m = Inl (Err ''matrix musts be square'')"
    by (simp add: Inverse_def)
next
  assume sq: "lines m = columns m"
  show "case Determinant m of
            Inl e \<Rightarrow> lines m = 0 \<and> e = Err ''empty matrix'' \<and> Inverse m = Inl e
          | Inr det \<Rightarrow> lines m \<noteq> 0
              \<and> (if go_eq det 0
                  then Inverse m = Inl (Err ''determinant is zero. Matrix cannot be inverted'')
                  else \<exists>R. Inverse m = Inr R \<and> rectangular R
                         \<and> lines R = lines m \<and> columns R = columns m)"
  proof (cases "lines m = 0")
    case True
    with sq show ?thesis
      by (simp add: Determinant_def Inverse_def)
  next
    case False
    from Determinant_succeeds [OF assms refl sq [symmetric] False]
    obtain det where det: "Determinant m = Inr det" by blast
    show ?thesis
    proof (cases "go_eq det 0")
      case True
      with det sq False show ?thesis
        by (simp add: Inverse_def)
    next
      case nz: False
      from Inverse_succeeds [OF assms refl sq [symmetric] det nz]
      show ?thesis
        using det nz sq False by simp
    qed
  qed
qed

theorem Inverse_error_cases_witness:
  "rectangular (ints [[5, 7, 9], [4, 3, 8], [7, 5, 6]])
   \<and> (\<exists>R. Inverse (ints [[5, 7, 9], [4, 3, 8], [7, 5, 6]]) = Inr R \<and> rectangular R
          \<and> lines R = 3 \<and> columns R = 3)
   \<and> rectangular (ints [[1, 3, 10], [- 1, 1, 10], [0, 2, 10]])
   \<and> Inverse (ints [[1, 3, 10], [- 1, 1, 10], [0, 2, 10]])
       = Inl (Err ''determinant is zero. Matrix cannot be inverted'')
   \<and> rectangular (ints [[1, 2]])
   \<and> Inverse (ints [[1, 2]]) = Inl (Err ''matrix musts be square'')
   \<and> rectangular (ints [])
   \<and> Inverse (ints []) = Inl (Err ''empty matrix'')"
proof -
  have r1: "rectangular (ints [[5, 7, 9], [4, 3, 8], [7, 5, 6]])"
    and r2: "rectangular (ints [[1, 3, 10], [- 1, 1, 10], [0, 2, 10]])"
    and r3: "rectangular (ints [[1, 2]])"
    and r4: "rectangular (ints [])"
    by (simp_all add: ints_def NewMatrix_def rectangular_def empty_matrix_def)
  have d1: "case Determinant (ints [[5, 7, 9], [4, 3, 8], [7, 5, 6]]) of
      Inl e \<Rightarrow> False | Inr det \<Rightarrow> \<not> go_eq det 0"
    by code_simp
  have d2: "Determinant (ints [[1, 3, 10], [- 1, 1, 10], [0, 2, 10]]) = Inr 0"
    by code_simp
  have z: "go_eq (0::float64) 0"
    by code_simp
  have s1: "lines (ints [[5, 7, 9], [4, 3, 8], [7, 5, 6]]) = 3"
    "columns (ints [[5, 7, 9], [4, 3, 8], [7, 5, 6]]) = 3"
    "lines (ints [[1, 3, 10], [- 1, 1, 10], [0, 2, 10]]) = 3"
    "columns (ints [[1, 3, 10], [- 1, 1, 10], [0, 2, 10]]) = 3"
    "lines (ints [[1, 2]]) = 1" "columns (ints [[1, 2]]) = 2"
    "lines (ints []) = 0" "columns (ints []) = 0"
    by (simp_all add: ints_def NewMatrix_def empty_matrix_def)
  have "\<exists>R. Inverse (ints [[5, 7, 9], [4, 3, 8], [7, 5, 6]]) = Inr R \<and> rectangular R
          \<and> lines R = 3 \<and> columns R = 3"
    using Inverse_error_cases [OF r1] d1 s1 by (auto split: sum.splits if_splits)
  moreover have "Inverse (ints [[1, 3, 10], [- 1, 1, 10], [0, 2, 10]])
       = Inl (Err ''determinant is zero. Matrix cannot be inverted'')"
    using Inverse_error_cases [OF r2] d2 z s1 by simp
  moreover have "Inverse (ints [[1, 2]]) = Inl (Err ''matrix musts be square'')"
    using Inverse_error_cases [OF r3] s1 by simp
  moreover have "Inverse (ints []) = Inl (Err ''empty matrix'')"
    using Inverse_error_cases [OF r4] s1 by (auto split: sum.splits)
  ultimately show ?thesis
    using r1 r2 r3 r4 by simp
qed

text \<open>
  C8 (as amended). For every \<open>n \<ge> 1\<close>, \<open>NewIdentityMatrix(n)\<close> succeeds, \<open>Inverse\<close> of it
  succeeds, and the result is the identity matrix again and \<open>Equals\<close> of it and the
  identity matrix is true. (For \<open>n = 0\<close> \<open>Inverse\<close> returns the error "empty matrix" of
  \<open>Determinant\<close>, see \<open>Inverse_identity_0\<close>.)
\<close>

theorem Inverse_identity:
  assumes "1 \<le> n"
  shows "\<exists>I R. NewIdentityMatrix n = Inr I \<and> Inverse I = Inr R \<and> R = I
      \<and> Equals R (I :: float64 Matrix) = Inr True"
proof -
  have n: "n = int (nat n)" and k: "1 \<le> nat n"
    using assms by simp_all
  have "NewIdentityMatrix n
      = Inr \<lparr>lines = nat n, columns = nat n, data = identity_grid (nat n) :: float64 list list\<rparr>"
    using NewIdentityMatrix_nat [of "nat n"] n by simp
  with Inverse_identity_grid [OF k] Equals_identity [of "nat n"] show ?thesis by simp
qed

theorem Inverse_identity_witness:
  "(1::int) \<le> 4 \<and> (\<exists>I R. NewIdentityMatrix 4 = Inr I \<and> Inverse I = Inr R \<and> R = I
      \<and> Equals R (I :: float64 Matrix) = Inr True)"
  using Inverse_identity [of 4] by simp

theorem Inverse_identity_0:
  "bind (NewIdentityMatrix 0) Inverse = (Inl (Err ''empty matrix'') :: error + float64 Matrix)"
  by (simp add: NewIdentityMatrix_def Inverse_def Determinant_def)

text \<open>
  C1. For every square matrix \<open>A\<close> whose leading principal minors are not zero, \<open>LU\<close> is
  to return \<open>L\<close> unit lower-triangular and \<open>U\<close> upper-triangular with
  \<open>L.Product(U).Equals(A)\<close> true. The loop of \<open>LU\<close> that fills row \<open>i\<close> of \<open>U\<close> runs over
  every column \<open>k\<close> from 0, not from \<open>i\<close>: below the diagonal, where an upper-triangular
  matrix has 0, it stores \<open>A[i][k] - sum\<close>, which is 0 only when no operation has rounded.
  On \<open>[[7, 0], [29, 1]]\<close>, whose entries are the floats given and whose leading principal
  minors are 7 and 7, \<open>LU\<close> returns \<open>L[1][0]\<close> the float nearest to 29/7 and
  \<open>U[1][0] = - 2^-48\<close>, which \<open>==\<close> does not take for 0: \<open>U\<close> is not upper-triangular.
\<close>

theorem LU_rounds:
  "map (map valof) (data (ints [[7, 0], [29, 1]])) = [[7, 0], [29, 1]]
   \<and> leading_minors_nonzero [[7, 0], [29, 1::real]]
   \<and> LU (ints [[7, 0], [29, 1]])
       = Inr (NewMatrix [[1, 0], [Finite False 4664442471205157 (- 50), 1]],
              NewMatrix [[f64_of_int 7, 0], [Finite True 4503599627370496 (- 100), 1]])
   \<and> \<not> go_eq (Finite True 4503599627370496 (- 100)) 0"
  by code_simp



end
